theory Spec2Isabelle
  imports Main
begin

section \<open>Data model\<close>

text \<open>
  The two source files are successive iterations of one reactive runtime:
  \<^verbatim>\<open>4-6.js\<close> (track, trigger, effect, cleanup) and
  \<^verbatim>\<open>4.8...lazy.js\<close> (the same, plus options, lazy units, schedulers and
  computed). Where they differ the model takes the version as a parameter.
\<close>

datatype version = V46 | V48

type_synonym key = string

text \<open>The keys of the WeakMap \<^verbatim>\<open>bucket\<close>: a raw proxied object, or the
  object returned by \<^verbatim>\<open>computed\<close>.\<close>

datatype target = Obj nat | ComputedObj nat

text \<open>What the variable \<^verbatim>\<open>activeEffect\<close> (and hence an entry of a subscriber Set)
  can hold: \<^verbatim>\<open>null\<close> (its initial value), \<^verbatim>\<open>undefined\<close> (the top of an
  empty effectStack), or an effectFn, identified by its allocation index.\<close>

datatype aref = Null | Undefined | Fn nat

datatype val = VUndefined | VNull | VNum int | VFun nat | VComputed nat

datatype exn = TypeError | ReferenceError | UserError val

text \<open>The computations handed to \<^verbatim>\<open>effect\<close> and \<^verbatim>\<open>computed\<close> are
  arbitrary closures; they are represented by the operations they perform on the runtime.
  Effects and computeds are referred to by allocation index (the n-th one created).\<close>

datatype exp =
    Lit val
  | Get nat key
  | Put nat key exp
  | Op2 "val \<Rightarrow> val \<Rightarrow> val" exp exp
  | Seq exp exp
  | Cond exp exp exp
  | Throw exp
  | TryCatch exp exp
  | Effect exp bool "exp option"
  | Computed exp
  | Value nat
  | Call nat

datatype sched = Computed_scheduler nat | User_scheduler exp

text \<open>An effectFn object: the wrapped \<^verbatim>\<open>fn\<close>, \<^verbatim>\<open>effectFn.options\<close>
  (lazy, scheduler) and \<^verbatim>\<open>effectFn.deps\<close>, a list of references to subscriber
  Sets (addresses in the Set store).\<close>

record effect_rec =
  fn :: exp
  opt_lazy :: bool
  opt_scheduler :: "sched option"
  deps :: "nat list"

text \<open>The closure state of one \<^verbatim>\<open>computed\<close> call: \<^verbatim>\<open>value\<close>,
  \<^verbatim>\<open>dirty\<close> and its \<^verbatim>\<open>effectFn\<close>.\<close>

record computed_rec =
  cvalue :: val
  dirty :: bool
  ceffect :: nat

text \<open>Observation history (not read by the program):
  \<^item> \<open>EvRun U\<close>: effectFn U was entered;
  \<^item> \<open>EvRead x r t k v\<close>: field \<open>(t, k)\<close> was read with result \<open>v\<close>;
    \<open>x\<close> is the value of activeEffect at that moment (the unit track records the
    read for), \<open>r\<close> the effectFn whose call the read happened in (the innermost
    effectFn call in progress, if any);
  \<^item> \<open>EvWrite t k v\<close>: \<open>v\<close> was stored in field \<open>(t, k)\<close> of a raw object;
  \<^item> \<open>EvRaise x\<close>: \<open>x\<close> was raised;
  \<^item> \<open>EvInvoke a x\<close>: the forEach of trigger over the Set at address \<open>a\<close>
    applied its callback to the entry \<open>x\<close>.\<close>

datatype event =
    EvRun nat
  | EvRead aref "nat option" target key val
  | EvWrite nat key val
  | EvRaise exn
  | EvInvoke nat aref

text \<open>Besides the variables of the program a state holds the history and, also not
  read by the program, the effectFn calls in progress (\<open>running\<close>, innermost
  last): the JavaScript call stack, as opposed to the program's own
  \<^verbatim>\<open>effectStack\<close>.\<close>

text \<open>A JavaScript Set: its entry list in insertion order; \<^verbatim>\<open>delete\<close> empties an
  entry in place (None), \<^verbatim>\<open>add\<close> appends when the value is absent, and
  \<^verbatim>\<open>forEach\<close> walks the live entry list by index.\<close>

type_synonym jsset = "aref option list"

record state =
  sets :: "jsset list"
  bucket :: "target \<Rightarrow> (key \<Rightarrow> nat option) option"
  data :: "nat \<Rightarrow> key \<Rightarrow> val"
  activeEffect :: aref
  effectStack :: "nat list"
  effects :: "effect_rec list"
  computeds :: "computed_rec list"
  trace :: "event list"
  running :: "nat list"

datatype 'a outcome = Timeout | Throws exn state | Returns 'a state

definition init :: "(nat \<Rightarrow> key \<Rightarrow> val) \<Rightarrow> state" where
  "init d = \<lparr>sets = [], bucket = (\<lambda>_. None), data = d, activeEffect = Null,
     effectStack = [], effects = [], computeds = [], trace = [], running = []\<rparr>"

section \<open>Set operations\<close>

definition set_add :: "jsset \<Rightarrow> aref \<Rightarrow> jsset" where
  "set_add es x = (if Some x \<in> set es then es else es @ [Some x])"

definition set_delete :: "jsset \<Rightarrow> aref \<Rightarrow> jsset" where
  "set_delete es x = map (\<lambda>y. if y = Some x then None else y) es"

fun set_entries :: "jsset \<Rightarrow> aref list" where
  "set_entries [] = []"
| "set_entries (None # es) = set_entries es"
| "set_entries (Some x # es) = x # set_entries es"

section \<open>track, cleanup and the traps\<close>

text \<open>Lines 23-30 of track: fetch the depsMap of the target and the Set of the key,
  creating either when absent; the result is the address of the Set.\<close>

definition get_deps :: "target \<Rightarrow> key \<Rightarrow> state \<Rightarrow> nat \<times> state" where
  "get_deps t k s =
     (case bucket s t of
        None \<Rightarrow> (length (sets s),
                 s\<lparr>sets := sets s @ [[]],
                   bucket := (bucket s)(t \<mapsto> Map.empty(k \<mapsto> length (sets s)))\<rparr>)
      | Some depsMap \<Rightarrow>
          (case depsMap k of
             Some a \<Rightarrow> (a, s)
           | None \<Rightarrow> (length (sets s),
                 s\<lparr>sets := sets s @ [[]],
                   bucket := (bucket s)(t \<mapsto> depsMap(k \<mapsto> length (sets s)))\<rparr>)))"

definition add_to_set :: "nat \<Rightarrow> aref \<Rightarrow> state \<Rightarrow> state" where
  "add_to_set a x s = s\<lparr>sets := (sets s)[a := set_add (sets s ! a) x]\<rparr>"

definition push_dep :: "nat \<Rightarrow> nat \<Rightarrow> state \<Rightarrow> state" where
  "push_dep U a s =
     s\<lparr>effects := (effects s)[U := (effects s ! U)\<lparr>deps := deps (effects s ! U) @ [a]\<rparr>]\<rparr>"

text \<open>track of 4.8 (lines 21-34): returns at once when activeEffect is falsy.\<close>

definition track :: "target \<Rightarrow> key \<Rightarrow> state \<Rightarrow> state" where
  "track t k s =
     (case activeEffect s of
        Fn U \<Rightarrow> (let (a, s1) = get_deps t k s in push_dep U a (add_to_set a (Fn U) s1))
      | _ \<Rightarrow> s)"

text \<open>track of 4-6.js (lines 21-33): no guard. With a falsy activeEffect the Set is
  created, \<^verbatim>\<open>deps.add(activeEffect)\<close> stores null or undefined in it, and
  \<^verbatim>\<open>activeEffect.deps\<close> raises a TypeError.\<close>

definition track_4_6 :: "target \<Rightarrow> key \<Rightarrow> state \<Rightarrow> exn \<times> state + state" where
  "track_4_6 t k s =
     (let (a, s1) = get_deps t k s;
          s2 = add_to_set a (activeEffect s) s1
      in case activeEffect s of
           Fn U \<Rightarrow> Inr (push_dep U a s2)
         | _ \<Rightarrow> Inl (TypeError, s2))"

definition track_ver :: "version \<Rightarrow> target \<Rightarrow> key \<Rightarrow> state \<Rightarrow> exn \<times> state + state" where
  "track_ver ver t k s = (case ver of V46 \<Rightarrow> track_4_6 t k s | V48 \<Rightarrow> Inr (track t k s))"

definition log :: "event \<Rightarrow> state \<Rightarrow> state" where
  "log ev s = s\<lparr>trace := ev # trace s\<rparr>"

text \<open>The effectFn whose call is executing: the innermost one in progress.\<close>

definition reader :: "state \<Rightarrow> nat option" where
  "reader s = (if running s = [] then None else Some (last (running s)))"

text \<open>The Proxy get trap: track, then return \<^verbatim>\<open>target[key]\<close>.\<close>

definition get_trap :: "version \<Rightarrow> nat \<Rightarrow> key \<Rightarrow> state \<Rightarrow> exn \<times> state + val \<times> state" where
  "get_trap ver t k s =
     (case track_ver ver (Obj t) k s of
        Inl (x, s1) \<Rightarrow> Inl (x, s1)
      | Inr s1 \<Rightarrow> Inr (data s t k, log (EvRead (activeEffect s) (reader s) (Obj t) k (data s t k)) s1))"

text \<open>The first statement of the Proxy set trap: \<^verbatim>\<open>target[key] = newValue\<close>.\<close>

definition set_store :: "nat \<Rightarrow> key \<Rightarrow> val \<Rightarrow> state \<Rightarrow> state" where
  "set_store t k v s = log (EvWrite t k v) (s\<lparr>data := (data s)(t := (data s t)(k := v))\<rparr>)"

text \<open>cleanup: delete the effectFn from every Set in its deps, then empty deps.\<close>

definition cleanup :: "nat \<Rightarrow> state \<Rightarrow> state" where
  "cleanup U s =
     s\<lparr>sets := foldl (\<lambda>ss a. ss[a := set_delete (ss ! a) (Fn U)]) (sets s) (deps (effects s ! U)),
       effects := (effects s)[U := (effects s ! U)\<lparr>deps := []\<rparr>]\<rparr>"

text \<open>The part of effectFn before \<^verbatim>\<open>fn()\<close>: cleanup, set activeEffect, push.
  The call of effectFn is now in progress.\<close>

definition begin_run :: "nat \<Rightarrow> state \<Rightarrow> state" where
  "begin_run U s =
     (let s1 = cleanup U (log (EvRun U) s)
      in s1\<lparr>activeEffect := Fn U, effectStack := effectStack s1 @ [U],
            running := running s1 @ [U]\<rparr>)"

definition stack_top :: "nat list \<Rightarrow> aref" where
  "stack_top st = (if st = [] then Undefined else Fn (last st))"

text \<open>The part of effectFn after \<^verbatim>\<open>fn()\<close>: pop, and point activeEffect at the new
  top of the stack (\<^verbatim>\<open>undefined\<close> when the stack is empty).\<close>

definition end_run :: "state \<Rightarrow> state" where
  "end_run s = s\<lparr>effectStack := butlast (effectStack s),
                 activeEffect := stack_top (butlast (effectStack s)),
                 running := butlast (running s)\<rparr>"

text \<open>When \<^verbatim>\<open>fn()\<close> raises, the call of effectFn is left at once (there is no
  try/finally in effectFn): none of the program's variables changes.\<close>

definition unwind :: "state \<Rightarrow> state" where
  "unwind s = s\<lparr>running := butlast (running s)\<rparr>"

text \<open>The body of \<^verbatim>\<open>effect\<close> up to the lazy test: allocate the effectFn. In 4-6.js
  there are no options.\<close>

definition new_effect :: "version \<Rightarrow> exp \<Rightarrow> bool \<Rightarrow> sched option \<Rightarrow> state \<Rightarrow> state" where
  "new_effect ver f lz sc s =
     s\<lparr>effects := effects s @
         [(case ver of
             V46 \<Rightarrow> \<lparr>fn = f, opt_lazy = False, opt_scheduler = None, deps = []\<rparr>
           | V48 \<Rightarrow> \<lparr>fn = f, opt_lazy = lz, opt_scheduler = sc, deps = []\<rparr>)]\<rparr>"

text \<open>computed: value = null, dirty = true, and a lazy effectFn whose scheduler belongs
  to this computed.\<close>

definition new_computed :: "exp \<Rightarrow> state \<Rightarrow> state" where
  "new_computed g s =
     (let c = length (computeds s); s1 = new_effect V48 g True (Some (Computed_scheduler c)) s
      in s1\<lparr>computeds := computeds s1 @ [\<lparr>cvalue = VNull, dirty = True, ceffect = length (effects s)\<rparr>]\<rparr>)"

definition set_dirty :: "nat \<Rightarrow> bool \<Rightarrow> state \<Rightarrow> state" where
  "set_dirty c b s = s\<lparr>computeds := (computeds s)[c := (computeds s ! c)\<lparr>dirty := b\<rparr>]\<rparr>"

definition set_cvalue :: "nat \<Rightarrow> val \<Rightarrow> state \<Rightarrow> state" where
  "set_cvalue c v s = s\<lparr>computeds := (computeds s)[c := (computeds s ! c)\<lparr>cvalue := v\<rparr>]\<rparr>"

text \<open>The end of the \<^verbatim>\<open>value\<close> getter: \<^verbatim>\<open>track(obj, 'value'); return value\<close>.\<close>

definition value_trap :: "nat \<Rightarrow> state \<Rightarrow> val \<times> state" where
  "value_trap c s =
     (cvalue (computeds s ! c),
      log (EvRead (activeEffect s) (reader s) (ComputedObj c) ''value'' (cvalue (computeds s ! c)))
        (track (ComputedObj c) ''value'' s))"

text \<open>trigger, lines 40-50: a new Set \<^verbatim>\<open>effectsToRun\<close> receives every entry of
  \<^verbatim>\<open>effects\<close> that is not activeEffect.\<close>

definition collect :: "aref \<Rightarrow> aref list \<Rightarrow> jsset" where
  "collect act xs = foldl (\<lambda>es x. if x \<noteq> act then set_add es x else es) [] xs"

definition new_effectsToRun :: "nat option \<Rightarrow> state \<Rightarrow> state" where
  "new_effectsToRun eff s =
     s\<lparr>sets := sets s @
        [collect (activeEffect s) (case eff of None \<Rightarrow> [] | Some ea \<Rightarrow> set_entries (sets s ! ea))]\<rparr>"

section \<open>The runtime\<close>

text \<open>A raise, recorded in the history.\<close>

definition raise :: "exn \<Rightarrow> state \<Rightarrow> 'a outcome" where
  "raise x s = Throws x (log (EvRaise x) s)"

definition bind :: "'a outcome \<Rightarrow> ('a \<Rightarrow> state \<Rightarrow> 'b outcome) \<Rightarrow> 'b outcome" where
  "bind r f = (case r of Timeout \<Rightarrow> Timeout | Throws x s \<Rightarrow> Throws x s | Returns v s \<Rightarrow> f v s)"

text \<open>
  A unit may write a field that re-runs another unit that writes the first field again,
  so the runtime need not terminate; every call consumes one unit of fuel and
  \<open>Timeout\<close> is the value of a run that needs more. The mutually recursive functions
  of the source are the cases of one function over the kind of call:
  \<^item> \<open>Eval e\<close>: the user computation \<open>e\<close> (\<open>TryCatch a b\<close> is
    \<^verbatim>\<open>try { a } catch (e) { b }\<close>);
  \<^item> \<open>EffectFn U\<close>: the wrapper created by \<^verbatim>\<open>effect\<close>;
  \<^item> \<open>Trigger t k\<close>: \<^verbatim>\<open>trigger(target, key)\<close>;
  \<^item> \<open>ForEach a i\<close>: \<^verbatim>\<open>effectsToRun.forEach\<close> standing at index \<open>i\<close> of
    the Set at address \<open>a\<close>;
  \<^item> \<open>Invoke x\<close>: the callback of that forEach, applied to the entry \<open>x\<close>.
\<close>

datatype call =
    Eval exp
  | EffectFn nat
  | Trigger target key
  | ForEach nat nat
  | Invoke aref

primrec run :: "version \<Rightarrow> nat \<Rightarrow> call \<Rightarrow> state \<Rightarrow> val outcome" where
  "run ver 0 = (\<lambda>c s. Timeout)"
| "run ver (Suc n) = (\<lambda>c s.
     case c of
       Eval (Lit v) \<Rightarrow> Returns v s
     | Eval (Get t k) \<Rightarrow>
         (case get_trap ver t k s of
            Inl (x, s1) \<Rightarrow> raise x s1
          | Inr (v, s1) \<Rightarrow> Returns v s1)
     | Eval (Put t k e) \<Rightarrow>
         bind (run ver n (Eval e) s) (\<lambda>v s1.
           bind (run ver n (Trigger (Obj t) k) (set_store t k v s1)) (\<lambda>_ s2. Returns v s2))
     | Eval (Op2 f a b) \<Rightarrow>
         bind (run ver n (Eval a) s) (\<lambda>x s1.
           bind (run ver n (Eval b) s1) (\<lambda>y s2. Returns (f x y) s2))
     | Eval (Seq a b) \<Rightarrow>
         bind (run ver n (Eval a) s) (\<lambda>_ s1. run ver n (Eval b) s1)
     | Eval (Cond c a b) \<Rightarrow>
         bind (run ver n (Eval c) s) (\<lambda>x s1.
           if x = VUndefined \<or> x = VNull \<or> x = VNum 0
           then run ver n (Eval b) s1 else run ver n (Eval a) s1)
     | Eval (Throw e) \<Rightarrow>
         bind (run ver n (Eval e) s) (\<lambda>x s1. raise (UserError x) s1)
     | Eval (TryCatch a b) \<Rightarrow>
         (case run ver n (Eval a) s of
            Timeout \<Rightarrow> Timeout
          | Throws x s1 \<Rightarrow> run ver n (Eval b) s1
          | Returns v s1 \<Rightarrow> Returns v s1)
     | Eval (Effect f lz sc) \<Rightarrow>
         (let U = length (effects s);
              s1 = new_effect ver f lz (map_option User_scheduler sc) s
          in case ver of
               V46 \<Rightarrow> bind (run ver n (EffectFn U) s1) (\<lambda>_ s2. Returns VUndefined s2)
             | V48 \<Rightarrow> if lz then Returns (VFun U) s1
                      else bind (run ver n (EffectFn U) s1) (\<lambda>_ s2. Returns (VFun U) s2))
     | Eval (Computed g) \<Rightarrow>
         (case ver of
            V46 \<Rightarrow> raise ReferenceError s
          | V48 \<Rightarrow> Returns (VComputed (length (computeds s))) (new_computed g s))
     | Eval (Value c) \<Rightarrow>
         (if c < length (computeds s) then
            if dirty (computeds s ! c) then
              bind (run ver n (EffectFn (ceffect (computeds s ! c))) s) (\<lambda>v s1.
                (case value_trap c (set_dirty c False (set_cvalue c v s1)) of
                   (w, s2) \<Rightarrow> Returns w s2))
            else (case value_trap c s of (w, s2) \<Rightarrow> Returns w s2)
          else raise TypeError s)
     | Eval (Call U) \<Rightarrow>
         (case ver of
            V46 \<Rightarrow> raise TypeError s
          | V48 \<Rightarrow> if U < length (effects s) then run ver n (EffectFn U) s
                   else raise TypeError s)
     | EffectFn U \<Rightarrow>
         (case run ver n (Eval (fn (effects s ! U))) (begin_run U s) of
            Timeout \<Rightarrow> Timeout
          | Throws x s1 \<Rightarrow> Throws x (unwind s1)
          | Returns res s1 \<Rightarrow>
              Returns (case ver of V46 \<Rightarrow> VUndefined | V48 \<Rightarrow> res) (end_run s1))
     | Trigger t k \<Rightarrow>
         (case bucket s t of
            None \<Rightarrow> Returns VUndefined s
          | Some depsMap \<Rightarrow>
              run ver n (ForEach (length (sets s)) 0) (new_effectsToRun (depsMap k) s))
     | ForEach a i \<Rightarrow>
         (if i < length (sets s ! a) then
            (case sets s ! a ! i of
               None \<Rightarrow> run ver n (ForEach a (Suc i)) s
             | Some x \<Rightarrow>
                 bind (run ver n (Invoke x) (log (EvInvoke a x) s))
                   (\<lambda>_ s1. run ver n (ForEach a (Suc i)) s1))
          else Returns VUndefined s)
     | Invoke x \<Rightarrow>
         (case x of
            Fn U \<Rightarrow>
              if U < length (effects s) then
                (case ver of
                   V46 \<Rightarrow> run ver n (EffectFn U) s
                 | V48 \<Rightarrow>
                     (case opt_scheduler (effects s ! U) of
                        None \<Rightarrow> run ver n (EffectFn U) s
                      | Some (Computed_scheduler c) \<Rightarrow>
                          if \<not> dirty (computeds s ! c)
                          then run ver n (Trigger (ComputedObj c) ''value'') (set_dirty c True s)
                          else Returns VUndefined s
                      | Some (User_scheduler f) \<Rightarrow> run ver n (Eval f) s))
              else raise TypeError s
          | _ \<Rightarrow> raise TypeError s))"

abbreviation eval :: "version \<Rightarrow> nat \<Rightarrow> exp \<Rightarrow> state \<Rightarrow> val outcome" where
  "eval ver n e s \<equiv> run ver n (Eval e) s"

abbreviation effectFn :: "version \<Rightarrow> nat \<Rightarrow> nat \<Rightarrow> state \<Rightarrow> val outcome" where
  "effectFn ver n U s \<equiv> run ver n (EffectFn U) s"

abbreviation trigger :: "version \<Rightarrow> nat \<Rightarrow> target \<Rightarrow> key \<Rightarrow> state \<Rightarrow> val outcome" where
  "trigger ver n t k s \<equiv> run ver n (Trigger t k) s"

abbreviation forEach_effectsToRun :: "version \<Rightarrow> nat \<Rightarrow> nat \<Rightarrow> nat \<Rightarrow> state \<Rightarrow> val outcome" where
  "forEach_effectsToRun ver n a i s \<equiv> run ver n (ForEach a i) s"

abbreviation invoke :: "version \<Rightarrow> nat \<Rightarrow> aref \<Rightarrow> state \<Rightarrow> val outcome" where
  "invoke ver n x s \<equiv> run ver n (Invoke x) s"

section \<open>Observations on outcomes and states\<close>

definition result_state :: "'a outcome \<Rightarrow> state option" where
  "result_state r = (case r of Timeout \<Rightarrow> None | Throws x s \<Rightarrow> Some s | Returns v s \<Rightarrow> Some s)"

definition raised :: "'a outcome \<Rightarrow> exn option" where
  "raised r = (case r of Throws x s \<Rightarrow> Some x | _ \<Rightarrow> None)"

definition returned :: "'a outcome \<Rightarrow> 'a option" where
  "returned r = (case r of Returns v s \<Rightarrow> Some v | _ \<Rightarrow> None)"

text \<open>The address of the subscriber Set of a field, when the registry has one.\<close>

definition deps_addr :: "state \<Rightarrow> target \<Rightarrow> key \<Rightarrow> nat option" where
  "deps_addr s t k = (case bucket s t of None \<Rightarrow> None | Some depsMap \<Rightarrow> depsMap k)"

text \<open>The live entries of the subscriber Set of a field, in iteration order.\<close>

definition subscribers :: "state \<Rightarrow> target \<Rightarrow> key \<Rightarrow> aref list" where
  "subscribers s t k = (case deps_addr s t k of None \<Rightarrow> [] | Some a \<Rightarrow> set_entries (sets s ! a))"

text \<open>How often an effectFn has been entered.\<close>

definition runs :: "state \<Rightarrow> nat \<Rightarrow> nat" where
  "runs s U = length (filter (\<lambda>ev. ev = EvRun U) (trace s))"

text \<open>Two states agree on the execution context in the way a completed call leaves it:
  the stack is the same and activeEffect is what it was or the top of the stack.\<close>

definition balanced :: "state \<Rightarrow> state \<Rightarrow> bool" where
  "balanced s s' \<longleftrightarrow> effectStack s' = effectStack s \<and>
     (activeEffect s' = activeEffect s \<or> activeEffect s' = stack_top (effectStack s))"

text \<open>Example data and computations used to exercise the theorems.\<close>

definition plus :: "val \<Rightarrow> val \<Rightarrow> val" where
  "plus a b = (case (a, b) of (VNum x, VNum y) \<Rightarrow> VNum (x + y) | _ \<Rightarrow> VUndefined)"

definition data_4_6 :: "nat \<Rightarrow> key \<Rightarrow> val" where
  "data_4_6 = (\<lambda>_ _. VUndefined)(0 := (\<lambda>_. VUndefined)(''foo'' := VNum 1))"

definition data_4_8 :: "nat \<Rightarrow> key \<Rightarrow> val" where
  "data_4_8 = (\<lambda>_ _. VUndefined)(0 := (\<lambda>_. VUndefined)(''foo'' := VNum 1, ''bar'' := VNum 2))"

definition no_data :: "nat \<Rightarrow> key \<Rightarrow> val" where
  "no_data = (\<lambda>_ _. VUndefined)"

text \<open>The state an outcome ends in (the initial state for a run out of fuel).\<close>

definition state_after :: "'a outcome \<Rightarrow> state" where
  "state_after r = (case r of Timeout \<Rightarrow> init no_data | Throws x s \<Rightarrow> s | Returns v s \<Rightarrow> s)"

text \<open>Two units reading \<^verbatim>\<open>obj.foo\<close>; the first one throws once foo is truthy.\<close>

definition two_subscribers :: exp where
  "two_subscribers =
     Seq (Effect (Cond (Get 0 ''foo'') (Throw (Lit (VNum 7))) (Lit VUndefined)) False None)
         (Effect (Get 0 ''foo'') False None)"

text \<open>The state in which trigger starts its forEach after \<^verbatim>\<open>obj.foo = 1\<close> has been
  stored with those two units subscribed: effectsToRun is the Set at address 1.\<close>

definition pass_state :: state where
  "pass_state = new_effectsToRun (Some 0)
     (set_store 0 ''foo'' (VNum 1) (state_after (eval V48 6 two_subscribers (init no_data))))"

section \<open>Invariants of the registry\<close>

text \<open>Well-formedness of the references held in a state: every Set address in the
  registry exists; two fields never share a Set; every entry of a deps list is a Set of
  the registry; activeEffect, the effect stack and the computeds only name effectFns
  that exist.\<close>

definition addrs_valid :: "state \<Rightarrow> bool" where
  "addrs_valid s \<longleftrightarrow> (\<forall>t k a. deps_addr s t k = Some a \<longrightarrow> a < length (sets s))"

definition addrs_inj :: "state \<Rightarrow> bool" where
  "addrs_inj s \<longleftrightarrow>
     (\<forall>t k t' k' a. deps_addr s t k = Some a \<and> deps_addr s t' k' = Some a \<longrightarrow> t = t' \<and> k = k')"

definition deps_registered :: "state \<Rightarrow> bool" where
  "deps_registered s \<longleftrightarrow>
     (\<forall>U a. U < length (effects s) \<and> a \<in> set (deps (effects s ! U)) \<longrightarrow>
        (\<exists>t k. deps_addr s t k = Some a))"

definition units_exist :: "state \<Rightarrow> bool" where
  "units_exist s \<longleftrightarrow>
     (\<forall>U. activeEffect s = Fn U \<longrightarrow> U < length (effects s)) \<and>
     (\<forall>U. U \<in> set (effectStack s) \<longrightarrow> U < length (effects s)) \<and>
     (\<forall>c. c < length (computeds s) \<longrightarrow> ceffect (computeds s ! c) < length (effects s))"

definition wf :: "state \<Rightarrow> bool" where
  "wf s \<longleftrightarrow> addrs_valid s \<and> addrs_inj s \<and> deps_registered s \<and> units_exist s"

text \<open>The Set at address a exists and x is a live entry of it.\<close>

definition has_entry :: "state \<Rightarrow> nat \<Rightarrow> aref \<Rightarrow> bool" where
  "has_entry s a x \<longleftrightarrow> a < length (sets s) \<and> Some x \<in> set (sets s ! a)"

text \<open>Bidirectional consistency: an effectFn is an entry of a field's subscriber Set
  exactly when it exists and that Set is an entry of its deps.\<close>

definition consistent :: "state \<Rightarrow> bool" where
  "consistent s \<longleftrightarrow>
     (\<forall>U t k a. deps_addr s t k = Some a \<longrightarrow>
        (has_entry s a (Fn U) \<longleftrightarrow>
           U < length (effects s) \<and> a \<in> set (deps (effects s ! U))))"

text \<open>The address track works on: the Set of the field, or the next free address when
  the registry has none yet.\<close>

definition track_addr :: "state \<Rightarrow> target \<Rightarrow> key \<Rightarrow> nat" where
  "track_addr s t k = (case deps_addr s t k of Some a \<Rightarrow> a | None \<Rightarrow> length (sets s))"

text \<open>Lines 23-31 of track in one piece: fetch or create the Set, then
  \<^verbatim>\<open>deps.add\<close>.\<close>

definition register :: "target \<Rightarrow> key \<Rightarrow> aref \<Rightarrow> state \<Rightarrow> state" where
  "register t k x s = add_to_set (track_addr s t k) x (snd (get_deps t k s))"

text \<open>The fields read on behalf of a unit (read while it was activeEffect) since the
  most recent start of one of its executions, from the history (newest event first).\<close>

fun current_reads :: "nat \<Rightarrow> event list \<Rightarrow> (target \<times> key) set" where
  "current_reads U [] = {}"
| "current_reads U (EvRun V # tr) = (if V = U then {} else current_reads U tr)"
| "current_reads U (EvRead x r t k v # tr) =
     (if x = Fn U then insert (t, k) (current_reads U tr) else current_reads U tr)"
| "current_reads U (EvWrite t k v # tr) = current_reads U tr"
| "current_reads U (EvRaise x # tr) = current_reads U tr"
| "current_reads U (EvInvoke a x # tr) = current_reads U tr"

text \<open>Unit U is a member of the subscriber Set of field (t, k).\<close>

definition subscribed :: "state \<Rightarrow> nat \<Rightarrow> target \<Rightarrow> key \<Rightarrow> bool" where
  "subscribed s U t k \<longleftrightarrow> (\<exists>a. deps_addr s t k = Some a \<and> has_entry s a (Fn U))"

definition tracks_reads :: "state \<Rightarrow> bool" where
  "tracks_reads s \<longleftrightarrow> (\<forall>U t k. subscribed s U t k \<longleftrightarrow> (t, k) \<in> current_reads U (trace s))"

definition inv :: "state \<Rightarrow> bool" where
  "inv s \<longleftrightarrow> wf s \<and> consistent s \<and> tracks_reads s"

text \<open>The state changes the runtime is made of.\<close>

inductive step :: "version \<Rightarrow> state \<Rightarrow> state \<Rightarrow> bool" for ver :: version where
  step_get: "get_trap ver t k s = Inr (v, s') \<Longrightarrow> step ver s s'"
| step_get_raise: "get_trap ver t k s = Inl (x, s') \<Longrightarrow> step ver s s'"
| step_raise: "step ver s (log (EvRaise x) s)"
| step_invoke: "step ver s (log (EvInvoke a y) s)"
| step_unwind: "step ver s (unwind s)"
| step_store: "step ver s (set_store t k v s)"
| step_new_effect: "step ver s (new_effect ver f lz sc s)"
| step_new_computed: "step ver s (new_computed g s)"
| step_begin: "U < length (effects s) \<Longrightarrow> step ver s (begin_run U s)"
| step_end: "step ver s (end_run s)"
| step_value: "value_trap c s = (v, s') \<Longrightarrow> step ver s s'"
| step_dirty: "step ver s (set_dirty c b s)"
| step_cvalue: "step ver s (set_cvalue c v s)"
| step_collect: "step ver s (new_effectsToRun eff s)"

text \<open>A call is well-formed in a state when the effectFn it names exists.\<close>

definition valid_call :: "state \<Rightarrow> call \<Rightarrow> bool" where
  "valid_call s c = (case c of EffectFn U \<Rightarrow> U < length (effects s) | _ \<Rightarrow> True)"

text \<open>Whatever state a run ends in is reached from its start by steps.\<close>

definition by_steps :: "version \<Rightarrow> state \<Rightarrow> 'a outcome \<Rightarrow> bool" where
  "by_steps ver s r \<longleftrightarrow> (wf s \<longrightarrow> (\<forall>s'. result_state r = Some s' \<longrightarrow> (step ver)\<^sup>*\<^sup>* s s'))"

text \<open>The events logged between two states of one run, newest first.\<close>

definition new_events :: "state \<Rightarrow> state \<Rightarrow> event list" where
  "new_events s s' = take (length (trace s') - length (trace s)) (trace s')"

text \<open>A unit that reads cond and foo and then writes trig, and a unit that, once trig is
  set, clears cond; used to exercise re-entrant runs.\<close>

definition data_reentrant :: "nat \<Rightarrow> key \<Rightarrow> val" where
  "data_reentrant = (\<lambda>_ _. VUndefined)(0 := (\<lambda>_. VUndefined)
     (''cond'' := VNum 1, ''foo'' := VNum 1, ''trig'' := VNum 0))"

definition reentrant_units :: exp where
  "reentrant_units =
     Seq (Effect (Cond (Get 0 ''trig'') (Put 0 ''cond'' (Lit (VNum 0))) (Lit VUndefined)) False None)
         (Effect (Cond (Get 0 ''cond'') (Seq (Get 0 ''foo'') (Put 0 ''trig'' (Lit (VNum 1))))
                    (Lit VUndefined)) False None)"

text \<open>A unit computing \<^verbatim>\<open>obj.cond ? obj.a : obj.b\<close>, after its first run (cond
  falsy) and after cond has been set to 1 in the raw object.\<close>

definition branch_unit :: exp where
  "branch_unit = Effect (Cond (Get 0 ''cond'') (Get 0 ''a'') (Get 0 ''b'')) False None"

definition branch_state :: state where
  "branch_state = set_store 0 ''cond'' (VNum 1) (state_after (eval V48 6 branch_unit (init no_data)))"

text \<open>The same two units with the second one created lazy, so that its first run is an
  explicit call of its effectFn.\<close>

definition reentrant_state :: state where
  "reentrant_state = state_after (eval V48 6
     (Seq (Effect (Cond (Get 0 ''trig'') (Put 0 ''cond'' (Lit (VNum 0))) (Lit VUndefined)) False None)
          (Effect (Cond (Get 0 ''cond'') (Seq (Get 0 ''foo'') (Put 0 ''trig'' (Lit (VNum 1))))
                     (Lit VUndefined)) True None))
     (init data_reentrant))"

text \<open>An outer unit that creates an inner unit reading bar and then reads foo, at the
  point where its computation starts (it has just been entered).\<close>

definition nested_state :: state where
  "nested_state = begin_run 0
     (new_effect V48 (Seq (Effect (Get 0 ''bar'') False None) (Get 0 ''foo'')) False None
        (init data_4_8))"

section \<open>The snapshot of trigger, as the specification words it\<close>

text \<open>The units trigger collects at notify time: the entries of the new Set, in
  iteration order.\<close>

definition effectsToRun :: "state \<Rightarrow> target \<Rightarrow> key \<Rightarrow> aref list" where
  "effectsToRun s t k = set_entries (collect (activeEffect s) (subscribers s t k))"

text \<open>Invoking the units of a fixed list one after the other (each by its scheduler
  when it has one), as the pass over the Set at address \<open>a\<close>; the first raise ends
  the pass.\<close>

fun dispatch_all :: "version \<Rightarrow> nat \<Rightarrow> nat \<Rightarrow> aref list \<Rightarrow> state \<Rightarrow> val outcome" where
  "dispatch_all ver 0 a xs s = Timeout"
| "dispatch_all ver (Suc n) a [] s = Returns VUndefined s"
| "dispatch_all ver (Suc n) a (x # xs) s =
     bind (invoke ver n x (log (EvInvoke a x) s)) (\<lambda>_ s1. dispatch_all ver n a xs s1)"

text \<open>The Set at address a is referenced by neither the registry nor, hence, any deps
  list, and its entries are X.\<close>

definition private_set :: "nat \<Rightarrow> jsset \<Rightarrow> state \<Rightarrow> bool" where
  "private_set a X s \<longleftrightarrow>
     wf s \<and> a < length (sets s) \<and> (\<forall>t k. deps_addr s t k \<noteq> Some a) \<and> sets s ! a = X"

text \<open>Two units reading foo, and the state in which trigger is called after
  \<^verbatim>\<open>obj.foo = 1\<close> has been stored.\<close>

definition notify_state :: state where
  "notify_state = set_store 0 ''foo'' (VNum 1)
     (state_after (eval V48 6
        (Seq (Effect (Get 0 ''foo'') False None) (Effect (Get 0 ''foo'') False None))
        (init no_data)))"

section \<open>Reads and writes in the history\<close>

text \<open>The value of the most recent write to a field of a raw object (the history is
  newest first).\<close>

fun last_write :: "event list \<Rightarrow> nat \<Rightarrow> key \<Rightarrow> val option" where
  "last_write [] t k = None"
| "last_write (EvWrite t' k' v # tr) t k = (if t' = t \<and> k' = k then Some v else last_write tr t k)"
| "last_write (EvRun U # tr) t k = last_write tr t k"
| "last_write (EvRead x r y z v # tr) t k = last_write tr t k"
| "last_write (EvRaise x # tr) t k = last_write tr t k"
| "last_write (EvInvoke a x # tr) t k = last_write tr t k"

text \<open>Every read of a field of a raw object returned the value of the most recent write
  to that field before it, when there was one.\<close>

fun reads_see_latest_write :: "event list \<Rightarrow> bool" where
  "reads_see_latest_write [] = True"
| "reads_see_latest_write (EvRead x r (Obj t) k v # tr) =
     ((case last_write tr t k of Some w \<Rightarrow> v = w | None \<Rightarrow> True) \<and> reads_see_latest_write tr)"
| "reads_see_latest_write (EvRead x r (ComputedObj c) k v # tr) = reads_see_latest_write tr"
| "reads_see_latest_write (EvRun U # tr) = reads_see_latest_write tr"
| "reads_see_latest_write (EvWrite t k v # tr) = reads_see_latest_write tr"
| "reads_see_latest_write (EvRaise x # tr) = reads_see_latest_write tr"
| "reads_see_latest_write (EvInvoke a x # tr) = reads_see_latest_write tr"

definition coherent :: "state \<Rightarrow> bool" where
  "coherent s \<longleftrightarrow>
     reads_see_latest_write (trace s) \<and>
     (\<forall>t k w. last_write (trace s) t k = Some w \<longrightarrow> data s t k = w)"

text \<open>The state after two units reading foo have been created.\<close>

definition readers_state :: state where
  "readers_state = state_after (eval V48 6
        (Seq (Effect (Get 0 ''foo'') False None) (Effect (Get 0 ''foo'') False None))
        (init no_data))"

section \<open>Raises and the execution context\<close>

text \<open>How many raises the history holds.\<close>

fun is_raise :: "event \<Rightarrow> bool" where
  "is_raise (EvRaise x) = True"
| "is_raise (EvRun U) = False"
| "is_raise (EvRead x r t k v) = False"
| "is_raise (EvWrite t k v) = False"
| "is_raise (EvInvoke a x) = False"

definition raises :: "state \<Rightarrow> nat" where
  "raises s = length (filter is_raise (trace s))"

text \<open>activeEffect names the effectFn whose call is executing, and that one is on top of
  the effect stack; outside every call, the stack is empty and activeEffect is no
  effectFn (null initially, undefined later).\<close>

definition attributed :: "state \<Rightarrow> bool" where
  "attributed s \<longleftrightarrow>
     (case reader s of
        None \<Rightarrow> effectStack s = [] \<and> activeEffect s \<in> {Null, Undefined}
      | Some U \<Rightarrow> effectStack s \<noteq> [] \<and> last (effectStack s) = U \<and> activeEffect s = Fn U)"

text \<open>A read is recorded accurately when track took it for the effectFn whose call
  performed it (for none, outside every call). The history counts the reads that are
  not.\<close>

fun accurate :: "event \<Rightarrow> bool" where
  "accurate (EvRead x r t k v) =
     (case r of None \<Rightarrow> x \<in> {Null, Undefined} | Some U \<Rightarrow> x = Fn U)"
| "accurate (EvRun U) = True"
| "accurate (EvWrite t k v) = True"
| "accurate (EvRaise x) = True"
| "accurate (EvInvoke a x) = True"

definition inaccurate :: "state \<Rightarrow> nat" where
  "inaccurate s = length (filter (\<lambda>ev. \<not> accurate ev) (trace s))"

text \<open>What a completed stretch of a run leaves of the execution context: unless something
  was raised in between, the stack and the calls in progress are what they were,
  activeEffect is what it was or the top of the stack, and, when activeEffect named the
  executing call at the start, every read in between was recorded accurately.\<close>

definition restored :: "state \<Rightarrow> state \<Rightarrow> bool" where
  "restored s s' \<longleftrightarrow> raises s \<le> raises s' \<and>
     (raises s' = raises s \<longrightarrow>
        balanced s s' \<and> running s' = running s \<and>
        (attributed s \<longrightarrow> inaccurate s' = inaccurate s))"

text \<open>The relation R holds from a state to the state an outcome returns in, the
  relation T to the state an outcome raises in.\<close>

definition follows ::
  "(state \<Rightarrow> state \<Rightarrow> bool) \<Rightarrow> (state \<Rightarrow> state \<Rightarrow> bool) \<Rightarrow> state \<Rightarrow> 'a outcome \<Rightarrow> bool" where
  "follows R T s r \<longleftrightarrow>
     (case r of Timeout \<Rightarrow> True | Throws x s' \<Rightarrow> T s s' | Returns v s' \<Rightarrow> R s s')"

text \<open>Something was raised between two states of a run.\<close>

definition raised_since :: "state \<Rightarrow> state \<Rightarrow> bool" where
  "raised_since s s' \<longleftrightarrow> raises s < raises s'"

text \<open>The effect stack has only grown: what was on it is still there, in place.\<close>

definition stack_kept :: "state \<Rightarrow> state \<Rightarrow> bool" where
  "stack_kept s s' \<longleftrightarrow> take (length (effectStack s)) (effectStack s') = effectStack s"

text \<open>A unit whose computation creates a unit that throws, and catches the error:
  \<^verbatim>\<open>effect(() => { try { effect(() => { throw 1 }) } catch (e) {} })\<close>.\<close>

definition caught_raise :: exp where
  "caught_raise =
     Effect (TryCatch (Effect (Throw (Lit (VNum 1))) False None) (Lit VUndefined)) False None"

section \<open>The reads of a unit's own computation\<close>

text \<open>The fields read in a call of effectFn U itself (by U's computation, not by that of
  a unit it creates or triggers) since the most recent start of an execution of U.\<close>

fun own_reads :: "nat \<Rightarrow> event list \<Rightarrow> (target \<times> key) set" where
  "own_reads U [] = {}"
| "own_reads U (EvRun V # tr) = (if V = U then {} else own_reads U tr)"
| "own_reads U (EvRead x r t k v # tr) =
     (if r = Some U then insert (t, k) (own_reads U tr) else own_reads U tr)"
| "own_reads U (EvWrite t k v # tr) = own_reads U tr"
| "own_reads U (EvRaise x # tr) = own_reads U tr"
| "own_reads U (EvInvoke a x # tr) = own_reads U tr"

text \<open>All the fields read in calls of effectFn U itself, in a stretch of history.\<close>

fun reads_of :: "nat \<Rightarrow> event list \<Rightarrow> (target \<times> key) set" where
  "reads_of U [] = {}"
| "reads_of U (EvRead x r t k v # tr) =
     (if r = Some U then insert (t, k) (reads_of U tr) else reads_of U tr)"
| "reads_of U (EvRun V # tr) = reads_of U tr"
| "reads_of U (EvWrite t k v # tr) = reads_of U tr"
| "reads_of U (EvRaise x # tr) = reads_of U tr"
| "reads_of U (EvInvoke a x # tr) = reads_of U tr"

text \<open>The events of unit U: the starts of its executions and the reads of its own
  computation.\<close>

fun of_unit :: "nat \<Rightarrow> event \<Rightarrow> bool" where
  "of_unit U (EvRun V) = (V = U)"
| "of_unit U (EvRead x r t k v) = (r = Some U)"
| "of_unit U (EvWrite t k v) = False"
| "of_unit U (EvRaise x) = False"
| "of_unit U (EvInvoke a x) = False"

text \<open>The re-entrant pair of units again, the second one reading bar after its write
  to trig: \<^verbatim>\<open>obj.cond ? (obj.foo, obj.trig = 1, obj.bar) : undefined\<close>, created
  lazy so that its first run is an explicit call of its effectFn.\<close>

definition stale_state :: state where
  "stale_state = state_after (eval V48 6
     (Seq (Effect (Cond (Get 0 ''trig'') (Put 0 ''cond'' (Lit (VNum 0))) (Lit VUndefined)) False None)
          (Effect (Cond (Get 0 ''cond'')
                     (Seq (Get 0 ''foo'') (Seq (Put 0 ''trig'' (Lit (VNum 1))) (Get 0 ''bar'')))
                     (Lit VUndefined)) True None))
     (init data_reentrant))"

text \<open>An outer unit that creates an inner unit and then reads foo, where the inner
  unit catches the error of a unit it creates in turn:
  \<^verbatim>\<open>effect(() => { effect(() => { try { effect(() => { throw 1 }) } catch (e) {} }); obj.foo })\<close>.\<close>

definition nested_caught :: exp where
  "nested_caught =
     Effect (Seq (Effect (TryCatch (Effect (Throw (Lit (VNum 1))) False None) (Lit VUndefined))
                    False None)
                 (Get 0 ''foo'')) False None"

text \<open>An outer unit that catches the error of the inner unit it creates, and then reads
  foo: \<^verbatim>\<open>effect(() => { try { effect(() => { throw 1 }) } catch (e) {}; obj.foo })\<close>.\<close>

definition nested_raise :: exp where
  "nested_raise =
     Effect (Seq (TryCatch (Effect (Throw (Lit (VNum 1))) False None) (Lit VUndefined))
                 (Get 0 ''foo'')) False None"

section \<open>The equations of the runtime, one per source construct\<close>

lemma run_numeral: "run ver (numeral k) = run ver (Suc (pred_numeral k))"
  by (simp add: numeral_eq_Suc)

lemma eval_Lit: "eval ver (Suc n) (Lit v) s = Returns v s"
  by simp

lemma eval_Get:
  "eval ver (Suc n) (Get t k) s =
     (case get_trap ver t k s of Inl (x, s1) \<Rightarrow> raise x s1 | Inr (v, s1) \<Rightarrow> Returns v s1)"
  by simp

lemma eval_Put:
  "eval ver (Suc n) (Put t k e) s =
     bind (eval ver n e s) (\<lambda>v s1.
       bind (trigger ver n (Obj t) k (set_store t k v s1)) (\<lambda>_ s2. Returns v s2))"
  by simp

lemma eval_Op2:
  "eval ver (Suc n) (Op2 f a b) s =
     bind (eval ver n a s) (\<lambda>x s1. bind (eval ver n b s1) (\<lambda>y s2. Returns (f x y) s2))"
  by simp

lemma eval_Seq:
  "eval ver (Suc n) (Seq a b) s = bind (eval ver n a s) (\<lambda>_ s1. eval ver n b s1)"
  by simp

lemma eval_Cond:
  "eval ver (Suc n) (Cond c a b) s =
     bind (eval ver n c s) (\<lambda>x s1.
       if x = VUndefined \<or> x = VNull \<or> x = VNum 0 then eval ver n b s1 else eval ver n a s1)"
  by simp

lemma eval_Throw:
  "eval ver (Suc n) (Throw e) s = bind (eval ver n e s) (\<lambda>x s1. raise (UserError x) s1)"
  by simp

lemma eval_TryCatch:
  "eval ver (Suc n) (TryCatch a b) s =
     (case eval ver n a s of
        Timeout \<Rightarrow> Timeout
      | Throws x s1 \<Rightarrow> eval ver n b s1
      | Returns v s1 \<Rightarrow> Returns v s1)"
  by simp

lemma eval_Effect:
  "eval ver (Suc n) (Effect f lz sc) s =
     (let U = length (effects s);
          s1 = new_effect ver f lz (map_option User_scheduler sc) s
      in case ver of
           V46 \<Rightarrow> bind (effectFn ver n U s1) (\<lambda>_ s2. Returns VUndefined s2)
         | V48 \<Rightarrow> if lz then Returns (VFun U) s1
                  else bind (effectFn ver n U s1) (\<lambda>_ s2. Returns (VFun U) s2))"
  by simp

lemma eval_Computed:
  "eval ver (Suc n) (Computed g) s =
     (case ver of
        V46 \<Rightarrow> raise ReferenceError s
      | V48 \<Rightarrow> Returns (VComputed (length (computeds s))) (new_computed g s))"
  by simp

lemma eval_Value:
  "eval ver (Suc n) (Value c) s =
     (if c < length (computeds s) then
        if dirty (computeds s ! c) then
          bind (effectFn ver n (ceffect (computeds s ! c)) s) (\<lambda>v s1.
            (case value_trap c (set_dirty c False (set_cvalue c v s1)) of
               (w, s2) \<Rightarrow> Returns w s2))
        else (case value_trap c s of (w, s2) \<Rightarrow> Returns w s2)
      else raise TypeError s)"
  by simp

lemma eval_Call:
  "eval ver (Suc n) (Call U) s =
     (case ver of
        V46 \<Rightarrow> raise TypeError s
      | V48 \<Rightarrow> if U < length (effects s) then effectFn ver n U s else raise TypeError s)"
  by simp

lemma effectFn_Suc:
  "effectFn ver (Suc n) U s =
     (case eval ver n (fn (effects s ! U)) (begin_run U s) of
        Timeout \<Rightarrow> Timeout
      | Throws x s1 \<Rightarrow> Throws x (unwind s1)
      | Returns res s1 \<Rightarrow> Returns (case ver of V46 \<Rightarrow> VUndefined | V48 \<Rightarrow> res) (end_run s1))"
  by simp

lemma trigger_Suc:
  "trigger ver (Suc n) t k s =
     (case bucket s t of
        None \<Rightarrow> Returns VUndefined s
      | Some depsMap \<Rightarrow>
          forEach_effectsToRun ver n (length (sets s)) 0 (new_effectsToRun (depsMap k) s))"
  by simp

lemma forEach_Suc:
  "forEach_effectsToRun ver (Suc n) a i s =
     (if i < length (sets s ! a) then
        (case sets s ! a ! i of
           None \<Rightarrow> forEach_effectsToRun ver n a (Suc i) s
         | Some x \<Rightarrow>
             bind (invoke ver n x (log (EvInvoke a x) s))
               (\<lambda>_ s1. forEach_effectsToRun ver n a (Suc i) s1))
      else Returns VUndefined s)"
  by simp

lemma invoke_Suc:
  "invoke ver (Suc n) x s =
     (case x of
        Fn U \<Rightarrow>
          if U < length (effects s) then
            (case ver of
               V46 \<Rightarrow> effectFn ver n U s
             | V48 \<Rightarrow>
                 (case opt_scheduler (effects s ! U) of
                    None \<Rightarrow> effectFn ver n U s
                  | Some (Computed_scheduler c) \<Rightarrow>
                      if \<not> dirty (computeds s ! c)
                      then trigger ver n (ComputedObj c) ''value'' (set_dirty c True s)
                      else Returns VUndefined s
                  | Some (User_scheduler f) \<Rightarrow> eval ver n f s))
          else raise TypeError s
      | _ \<Rightarrow> raise TypeError s)"
  by simp

lemmas run_Suc = eval_Lit eval_Get eval_Put eval_Op2 eval_Seq eval_Cond eval_Throw eval_TryCatch
  eval_Effect
  eval_Computed eval_Value eval_Call effectFn_Suc trigger_Suc forEach_Suc invoke_Suc

declare run.simps(2) [simp del]

lemma run_num: "run ver (numeral k) c s = run ver (Suc (pred_numeral k)) c s"
  by (simp add: numeral_eq_Suc)

text \<open>Unfolding one call at a numeral amount of fuel, for evaluating concrete runs.\<close>

lemmas run_unfold = run_num[unfolded run.simps(2)]

lemmas prim_defs = get_trap_def track_ver_def track_def track_4_6_def
  get_deps_def add_to_set_def push_dep_def log_def set_store_def cleanup_def begin_run_def
  end_run_def unwind_def reader_def new_effect_def new_computed_def set_dirty_def set_cvalue_def value_trap_def
  new_effectsToRun_def

lemmas eval_defs = run_unfold run.simps bind_def raise_def prim_defs init_def stack_top_def collect_def set_add_def
  set_delete_def result_state_def raised_def returned_def plus_def data_4_6_def data_4_8_def
  deps_addr_def subscribers_def runs_def

section \<open>Execution context: stack discipline\<close>

lemma balanced_refl: "balanced s s"
  by (simp add: balanced_def)

lemma balanced_trans: "balanced s s1 \<Longrightarrow> balanced s1 s2 \<Longrightarrow> balanced s s2"
  by (auto simp: balanced_def)

lemma attributed_balanced:
  "attributed s \<Longrightarrow> balanced s s' \<Longrightarrow> running s' = running s \<Longrightarrow> attributed s'"
  by (auto simp: attributed_def balanced_def reader_def stack_top_def split: if_splits)

lemma get_trap_context:
  "get_trap ver t k s = Inr (v, s') \<Longrightarrow>
     effectStack s' = effectStack s \<and> activeEffect s' = activeEffect s \<and>
     running s' = running s \<and> raises s' = raises s \<and>
     (attributed s \<longrightarrow> inaccurate s' = inaccurate s)"
  by (auto simp: prim_defs raises_def inaccurate_def attributed_def Let_def
      split: version.splits aref.splits option.splits prod.splits if_splits)

lemma get_trap_raise_context:
  "get_trap ver t k s = Inl (x, s') \<Longrightarrow>
     effectStack s' = effectStack s \<and> activeEffect s' = activeEffect s \<and>
     running s' = running s \<and> raises s' = raises s \<and> inaccurate s' = inaccurate s"
  by (auto simp: prim_defs raises_def inaccurate_def Let_def
      split: version.splits aref.splits option.splits prod.splits)

lemma value_trap_context:
  "value_trap c s = (v, s') \<Longrightarrow>
     effectStack s' = effectStack s \<and> activeEffect s' = activeEffect s \<and>
     running s' = running s \<and> raises s' = raises s \<and>
     (attributed s \<longrightarrow> inaccurate s' = inaccurate s)"
  by (auto simp: prim_defs raises_def inaccurate_def attributed_def Let_def
      split: version.splits aref.splits option.splits prod.splits if_splits)

lemma prim_context [simp]:
  "effectStack (set_store t k v s) = effectStack s"
  "activeEffect (set_store t k v s) = activeEffect s"
  "effectStack (new_effect ver f lz sc s) = effectStack s"
  "activeEffect (new_effect ver f lz sc s) = activeEffect s"
  "effectStack (new_computed g s) = effectStack s"
  "activeEffect (new_computed g s) = activeEffect s"
  "effectStack (set_dirty c b s) = effectStack s"
  "activeEffect (set_dirty c b s) = activeEffect s"
  "effectStack (set_cvalue c v s) = effectStack s"
  "activeEffect (set_cvalue c v s) = activeEffect s"
  "effectStack (new_effectsToRun eff s) = effectStack s"
  "activeEffect (new_effectsToRun eff s) = activeEffect s"
  "effectStack (begin_run U s) = effectStack s @ [U]"
  "activeEffect (begin_run U s) = Fn U"
  "effectStack (end_run s) = butlast (effectStack s)"
  "activeEffect (end_run s) = stack_top (butlast (effectStack s))"
  "effectStack (unwind s) = effectStack s"
  "activeEffect (unwind s) = activeEffect s"
  "effectStack (log ev s) = effectStack s"
  "activeEffect (log ev s) = activeEffect s"
  by (simp_all add: prim_defs Let_def)

lemma prim_running [simp]:
  "running (set_store t k v s) = running s"
  "running (new_effect ver f lz sc s) = running s"
  "running (new_computed g s) = running s"
  "running (set_dirty c b s) = running s"
  "running (set_cvalue c v s) = running s"
  "running (new_effectsToRun eff s) = running s"
  "running (begin_run U s) = running s @ [U]"
  "running (end_run s) = butlast (running s)"
  "running (unwind s) = butlast (running s)"
  "running (log ev s) = running s"
  by (simp_all add: prim_defs Let_def)

lemma prim_raises [simp]:
  "raises (set_store t k v s) = raises s"
  "raises (new_effect ver f lz sc s) = raises s"
  "raises (new_computed g s) = raises s"
  "raises (set_dirty c b s) = raises s"
  "raises (set_cvalue c v s) = raises s"
  "raises (new_effectsToRun eff s) = raises s"
  "raises (begin_run U s) = raises s"
  "raises (end_run s) = raises s"
  "raises (unwind s) = raises s"
  "raises (log (EvRaise x) s) = Suc (raises s)"
  "raises (log (EvInvoke a y) s) = raises s"
  by (simp_all add: prim_defs raises_def Let_def)

lemma prim_inaccurate [simp]:
  "inaccurate (set_store t k v s) = inaccurate s"
  "inaccurate (new_effect ver f lz sc s) = inaccurate s"
  "inaccurate (new_computed g s) = inaccurate s"
  "inaccurate (set_dirty c b s) = inaccurate s"
  "inaccurate (set_cvalue c v s) = inaccurate s"
  "inaccurate (new_effectsToRun eff s) = inaccurate s"
  "inaccurate (begin_run U s) = inaccurate s"
  "inaccurate (end_run s) = inaccurate s"
  "inaccurate (unwind s) = inaccurate s"
  "inaccurate (log (EvRaise x) s) = inaccurate s"
  "inaccurate (log (EvInvoke a y) s) = inaccurate s"
  by (simp_all add: prim_defs inaccurate_def Let_def)

lemma restored_refl: "restored s s"
  by (simp add: restored_def balanced_refl)

lemma restored_trans: "restored s s1 \<Longrightarrow> restored s1 s2 \<Longrightarrow> restored s s2"
  unfolding restored_def
  by (auto intro: balanced_trans dest: attributed_balanced)

lemma restored_same:
  "effectStack s' = effectStack s \<Longrightarrow> activeEffect s' = activeEffect s \<Longrightarrow>
   running s' = running s \<Longrightarrow> raises s' = raises s \<Longrightarrow>
   (attributed s \<Longrightarrow> inaccurate s' = inaccurate s) \<Longrightarrow> restored s s'"
  by (simp add: restored_def balanced_def)

lemma restored_prim:
  "restored s (set_store t k v s)"
  "restored s (new_effect ver f lz sc s)"
  "restored s (new_computed g s)"
  "restored s (set_dirty c b s)"
  "restored s (set_cvalue c v s)"
  "restored s (new_effectsToRun eff s)"
  "restored s (log (EvInvoke a y) s)"
  by (rule restored_same; simp)+

lemma restored_get: "get_trap ver t k s = Inr (v, s') \<Longrightarrow> restored s s'"
  by (rule restored_same) (simp_all add: get_trap_context)

lemma restored_get_raise: "get_trap ver t k s = Inl (x, s') \<Longrightarrow> restored s s'"
  by (rule restored_same) (simp_all add: get_trap_raise_context)

lemma restored_value: "value_trap c s = (v, s') \<Longrightarrow> restored s s'"
  by (rule restored_same) (simp_all add: value_trap_context)

lemma restored_leave: "restored (begin_run U s) s1 \<Longrightarrow> restored s (end_run s1)"
  by (auto simp: restored_def balanced_def attributed_def reader_def)

lemma raised_since_restored:
  "restored s s1 \<Longrightarrow> raised_since s1 s2 \<Longrightarrow> raised_since s s2"
  "raised_since s s1 \<Longrightarrow> restored s1 s2 \<Longrightarrow> restored s s2"
  "raised_since s s1 \<Longrightarrow> raised_since s1 s2 \<Longrightarrow> raised_since s s2"
  by (auto simp: restored_def raised_since_def)

lemma raised_since_prim:
  "raised_since s (log (EvRaise x) s)"
  "get_trap ver t k s = Inl (x, s1) \<Longrightarrow> raised_since s (log (EvRaise y) s1)"
  "raised_since (begin_run U s) s1 \<Longrightarrow> raised_since s (unwind s1)"
  by (auto simp: raised_since_def dest: get_trap_raise_context)

lemmas restored_intros = restored_refl restored_prim restored_get restored_value restored_leave
  raised_since_prim

text \<open>An induction principle for runs: a relation R that holds along every state change
  of a completed call, and a relation T that holds from a state to the state of a raise
  after it, hold between the start of a run and the state it returns, respectively
  raises, in.\<close>

lemma follows_simps [simp]:
  "follows R T s Timeout"
  "follows R T s (Returns v s') = R s s'"
  "follows R T s (Throws x s') = T s s'"
  by (simp_all add: follows_def)

lemma run_follows_calls:
  fixes R T :: "state \<Rightarrow> state \<Rightarrow> bool" and Rf Tf :: "nat \<Rightarrow> state \<Rightarrow> state \<Rightarrow> bool"
  assumes refl: "\<And>s. R s s"
    and RR: "\<And>a b c. R a b \<Longrightarrow> R b c \<Longrightarrow> R a c"
    and RT: "\<And>a b c. R a b \<Longrightarrow> T b c \<Longrightarrow> T a c"
    and TR: "\<And>a b c. T a b \<Longrightarrow> R b c \<Longrightarrow> R a c"
    and TT: "\<And>a b c. T a b \<Longrightarrow> T b c \<Longrightarrow> T a c"
    and get: "\<And>ver t k s v s'. get_trap ver t k s = Inr (v, s') \<Longrightarrow> R s s'"
    and get_raise: "\<And>ver t k s x s'. get_trap ver t k s = Inl (x, s') \<Longrightarrow> R s s'"
    and val: "\<And>c s v s'. value_trap c s = (v, s') \<Longrightarrow> R s s'"
    and store: "\<And>t k v s. R s (set_store t k v s)"
    and new_effect: "\<And>ver f lz sc s. R s (new_effect ver f lz sc s)"
    and new_computed: "\<And>g s. R s (new_computed g s)"
    and set_dirty: "\<And>c b s. R s (set_dirty c b s)"
    and set_cvalue: "\<And>c v s. R s (set_cvalue c v s)"
    and raised: "\<And>x s. T s (log (EvRaise x) s)"
    and leave: "\<And>U s s1. R (begin_run U s) s1 \<Longrightarrow> R s (end_run s1)"
    and leave_raise: "\<And>U s s1. T (begin_run U s) s1 \<Longrightarrow> T s (unwind s1)"
    and enter: "\<And>eff s s'. Rf (length (sets s)) (new_effectsToRun eff s) s' \<Longrightarrow> R s s'"
    and enter_raise: "\<And>eff s s'. Tf (length (sets s)) (new_effectsToRun eff s) s' \<Longrightarrow> T s s'"
    and fe_refl: "\<And>a s. Rf a s s"
    and fe_step: "\<And>a y s s1 s2. R (log (EvInvoke a y) s) s1 \<Longrightarrow> Rf a s1 s2 \<Longrightarrow> Rf a s s2"
    and fe_step_raise: "\<And>a y s s1 s2. R (log (EvInvoke a y) s) s1 \<Longrightarrow> Tf a s1 s2 \<Longrightarrow> Tf a s s2"
    and fe_raise: "\<And>a y s s1. T (log (EvInvoke a y) s) s1 \<Longrightarrow> Tf a s s1"
  shows "follows (case c of ForEach a i \<Rightarrow> Rf a | _ \<Rightarrow> R) (case c of ForEach a i \<Rightarrow> Tf a | _ \<Rightarrow> T) s
           (run ver n c s)"
proof (induction n arbitrary: ver c s)
  case 0
  show ?case by simp
next
  case (Suc n)
  have IH0: "follows (case c of ForEach a i \<Rightarrow> Rf a | _ \<Rightarrow> R)
      (case c of ForEach a i \<Rightarrow> Tf a | _ \<Rightarrow> T) s (run ver n c s)" for ver c s
    by (rule Suc.IH)
  have IH: "follows R T s (eval ver n e s)" "follows R T s (effectFn ver n U s)"
    "follows R T s (trigger ver n t k s)" "follows R T s (invoke ver n y s)"
    for ver s e U t k y
    using IH0[where c="Eval e" and s=s and ver=ver] IH0[where c="EffectFn U" and s=s and ver=ver]
      IH0[where c="Trigger t k" and s=s and ver=ver] IH0[where c="Invoke y" and s=s and ver=ver]
    by simp_all
  have IHf: "follows (Rf a) (Tf a) s (forEach_effectsToRun ver n a i s)" for ver s a i
    using IH0[where c="ForEach a i" and s=s and ver=ver] by simp
  have "follows (case c of ForEach a i \<Rightarrow> Rf a | _ \<Rightarrow> R) (case c of ForEach a i \<Rightarrow> Tf a | _ \<Rightarrow> T) s
          (run ver (Suc n) c s)"
  proof -
    have step: "follows R T s r" if "R s s1" "follows R T s1 r" for s s1 and r :: "val outcome"
      using that by (cases r) (auto intro: RR RT)
    have bnd: "follows R T s (bind r f)"
      if "follows R T s r" "\<And>v s1. follows R T s1 (f v s1)"
      for s and r :: "val outcome" and f :: "val \<Rightarrow> state \<Rightarrow> val outcome"
    proof (cases r)
      case Timeout
      then show ?thesis by (simp add: bind_def)
    next
      case (Throws x s1)
      with that(1) show ?thesis by (simp add: bind_def)
    next
      case (Returns v s1)
      with that(1) have "R s s1" by simp
      from step[OF this that(2)] show ?thesis by (simp add: bind_def Returns)
    qed
    have rse: "follows R T s (raise x s)" for x s and r :: "val outcome"
      by (simp add: raise_def raised)
    show ?thesis
    proof (cases c)
      case (Eval e)
      have "follows R T s (run ver (Suc n) c s)"
      proof (cases e)
        case (Lit x)
        with Eval show ?thesis by (simp add: run_Suc refl)
      next
        case (Get t k)
        show ?thesis
        proof (cases "get_trap ver t k s")
          case (Inl p)
          then obtain x s1 where p: "get_trap ver t k s = Inl (x, s1)" by (cases p) simp
          from RT[OF get_raise[OF p] raised] show ?thesis
            by (simp add: Eval Get run_Suc p raise_def)
        next
          case (Inr p)
          then obtain x s1 where p: "get_trap ver t k s = Inr (x, s1)" by (cases p) simp
          from get[OF p] show ?thesis
            by (simp add: Eval Get run_Suc p)
        qed
      next
        case (Put t k e')
        show ?thesis
          unfolding Eval Put eval_Put
          apply (rule bnd)
           apply (rule IH)
          apply (rule step[OF store])
          apply (rule bnd)
           apply (rule IH)
          apply (simp add: refl)
          done
      next
        case (Op2 f a b)
        with Eval show ?thesis
          by (auto simp: run_Suc refl intro!: bnd IH)
      next
        case (Seq a b)
        with Eval show ?thesis
          by (auto simp: run_Suc intro!: bnd IH)
      next
        case (Cond c a b)
        with Eval show ?thesis
          by (auto simp: run_Suc intro!: bnd IH)
      next
        case (Throw a)
        with Eval show ?thesis
          by (auto simp: run_Suc intro!: bnd IH rse)
      next
        case (TryCatch a b)
        show ?thesis
        proof (cases "eval ver n a s")
          case Timeout
          then show ?thesis by (simp add: Eval TryCatch run_Suc)
        next
          case (Throws x s1)
          from IH(1)[where s=s and ver=ver and e=a] have t: "T s s1" by (simp add: Throws)
          have "follows R T s (eval ver n b s1)"
            using IH(1)[where s=s1 and ver=ver and e=b] t
          by (cases "eval ver n b s1") (auto intro: TR TT)
          then show ?thesis by (simp add: Eval TryCatch run_Suc Throws)
        next
          case (Returns v s1)
          with IH(1)[where s=s and ver=ver and e=a] show ?thesis
          by (simp add: Eval TryCatch run_Suc)
        qed
      next
        case (Effect f lz sc)
        have run: "follows R T (new_effect v' f' lz' sc' s)
            (bind (effectFn v' n (length (effects s)) (new_effect v' f' lz' sc' s))
               (\<lambda>_ s2. Returns w s2))" for w :: val and v' f' lz' sc'
          by (auto intro!: bnd IH simp: refl)
        show ?thesis
          unfolding Eval Effect eval_Effect Let_def
          by (rule step[OF new_effect[where ver=ver and f=f and lz=lz
                  and sc="map_option User_scheduler sc"]])
             (auto split: version.splits simp: run refl)
      next
        case (Computed g)
        with Eval show ?thesis
          by (auto simp: run_Suc rse new_computed split: version.splits)
      next
        case (Value c)
        have a: "follows R T s1 (case value_trap c s1 of (w, s2) \<Rightarrow> Returns w s2)" for s1
        proof (cases "value_trap c s1")
          case (Pair w s2)
          from val[OF Pair] show ?thesis by (simp add: Pair)
        qed
        have b: "follows R T s1 (case value_trap c (set_dirty c False (set_cvalue c v s1)) of
                       (w, s2) \<Rightarrow> Returns w s2)" for s1 v
          by (rule step[OF set_cvalue]) (rule step[OF set_dirty], rule a)
        from Eval Value show ?thesis
          by (auto simp: run_Suc a rse intro!: bnd IH b)
      next
        case (Call U)
        with Eval show ?thesis
          by (auto simp: run_Suc rse split: version.splits intro!: IH)
      qed
      then show ?thesis by (simp add: Eval)
    next
      case (EffectFn U)
      have "follows R T s (case r of Timeout \<Rightarrow> Timeout | Throws x s1 \<Rightarrow> Throws x (unwind s1)
          | Returns res s1 \<Rightarrow> Returns (g res) (end_run s1))"
        if "follows R T (begin_run U s) r" for r :: "val outcome" and g :: "val \<Rightarrow> val"
        using that by (cases r) (auto intro: leave leave_raise)
      from this[OF IH(1)] show ?thesis
        by (simp add: EffectFn effectFn_Suc)
    next
      case (Trigger t k)
      have "follows R T s (forEach_effectsToRun ver n (length (sets s)) 0 (new_effectsToRun eff s))"
        for eff
        using IHf[where a="length (sets s)" and s="new_effectsToRun eff s" and ver=ver and i=0]
        by (cases "forEach_effectsToRun ver n (length (sets s)) 0 (new_effectsToRun eff s)")
           (auto intro: enter enter_raise)
      with Trigger show ?thesis
        by (auto simp: run_Suc refl split: option.splits)
    next
      case (ForEach a i)
      have "follows (Rf a) (Tf a) s (bind (invoke ver n y (log (EvInvoke a y) s))
          (\<lambda>_ s1. forEach_effectsToRun ver n a (Suc i) s1))" for y
      proof (cases "invoke ver n y (log (EvInvoke a y) s)")
        case Timeout
        then show ?thesis by (simp add: bind_def)
      next
        case (Throws x s1)
        with IH(4)[where s="log (EvInvoke a y) s" and ver=ver and y=y] show ?thesis
          by (simp add: bind_def fe_raise)
      next
        case (Returns v s1)
        with IH(4)[where s="log (EvInvoke a y) s" and ver=ver and y=y] have r: "R (log (EvInvoke a y) s) s1"
          by simp
        show ?thesis
          using IHf[where a=a and s=s1 and ver=ver and i="Suc i"]
          by (cases "forEach_effectsToRun ver n a (Suc i) s1")
             (auto simp: bind_def Returns intro: fe_step[OF r] fe_step_raise[OF r])
      qed
      with ForEach show ?thesis
        by (auto simp: run_Suc fe_refl IHf split: option.splits)
    next
      case (Invoke x)
      have "follows R T s (trigger ver n (ComputedObj c') ''value'' (set_dirty c' True s))" for c'
        by (rule step[OF set_dirty]) (rule IH)
      with Invoke show ?thesis
        by (auto simp: run_Suc refl rse split: option.splits aref.splits version.splits sched.splits
            intro!: IH)
    qed
  qed
  then show ?case .
qed

lemma run_follows:
  fixes R T :: "state \<Rightarrow> state \<Rightarrow> bool"
  assumes refl: "\<And>s. R s s"
    and RR: "\<And>a b c. R a b \<Longrightarrow> R b c \<Longrightarrow> R a c"
    and RT: "\<And>a b c. R a b \<Longrightarrow> T b c \<Longrightarrow> T a c"
    and TR: "\<And>a b c. T a b \<Longrightarrow> R b c \<Longrightarrow> R a c"
    and TT: "\<And>a b c. T a b \<Longrightarrow> T b c \<Longrightarrow> T a c"
    and get: "\<And>ver t k s v s'. get_trap ver t k s = Inr (v, s') \<Longrightarrow> R s s'"
    and get_raise: "\<And>ver t k s x s'. get_trap ver t k s = Inl (x, s') \<Longrightarrow> R s s'"
    and val: "\<And>c s v s'. value_trap c s = (v, s') \<Longrightarrow> R s s'"
    and store: "\<And>t k v s. R s (set_store t k v s)"
    and new_effect: "\<And>ver f lz sc s. R s (new_effect ver f lz sc s)"
    and new_computed: "\<And>g s. R s (new_computed g s)"
    and set_dirty: "\<And>c b s. R s (set_dirty c b s)"
    and set_cvalue: "\<And>c v s. R s (set_cvalue c v s)"
    and collect: "\<And>eff s. R s (new_effectsToRun eff s)"
    and invoked: "\<And>a y s. R s (log (EvInvoke a y) s)"
    and raised: "\<And>x s. T s (log (EvRaise x) s)"
    and leave: "\<And>U s s1. R (begin_run U s) s1 \<Longrightarrow> R s (end_run s1)"
    and leave_raise: "\<And>U s s1. T (begin_run U s) s1 \<Longrightarrow> T s (unwind s1)"
  shows "follows R T s (run ver n c s)"
proof -
  have "follows (case c of ForEach a i \<Rightarrow> R | _ \<Rightarrow> R) (case c of ForEach a i \<Rightarrow> T | _ \<Rightarrow> T) s
          (run ver n c s)"
    by (rule run_follows_calls[where R=R and T=T and Rf="\<lambda>_. R" and Tf="\<lambda>_. T",
          OF refl RR RT TR TT get get_raise val store new_effect new_computed set_dirty
            set_cvalue raised leave leave_raise])
       (blast intro: refl RR RT collect invoked)+
  then show ?thesis by (cases c) simp_all
qed

text \<open>A run that returns without any raise in between (caught or not) has restored the
  execution context; a run that raises has logged it.\<close>

lemma run_restored_raises: "follows restored raised_since s (run ver n c s)"
  by (rule run_follows[where R=restored and T=raised_since,
        OF restored_refl restored_trans raised_since_restored restored_get restored_get_raise
          restored_value restored_prim raised_since_prim(1) restored_leave raised_since_prim(3)])

lemma run_restored: "run ver n c s = Returns v s' \<Longrightarrow> restored s s'"
  using run_restored_raises[of s ver n c] by simp

lemma run_raises: "run ver n c s = Throws x s' \<Longrightarrow> raises s < raises s'"
  using run_restored_raises[of s ver n c] by (simp add: raised_since_def)

lemma run_balanced:
  "run ver n c s = Returns v s' \<Longrightarrow> raises s' = raises s \<Longrightarrow> balanced s s'"
  using run_restored[of ver n c s v s'] by (simp add: restored_def)

lemma run_running:
  "run ver n c s = Returns v s' \<Longrightarrow> raises s' = raises s \<Longrightarrow> running s' = running s"
  using run_restored[of ver n c s v s'] by (simp add: restored_def)

lemma run_raises_mono: "run ver n c s = Returns v s' \<Longrightarrow> raises s \<le> raises s'"
  using run_restored[of ver n c s v s'] by (simp add: restored_def)

lemma run_accurate:
  "run ver n c s = Returns v s' \<Longrightarrow> raises s' = raises s \<Longrightarrow> attributed s \<Longrightarrow>
     inaccurate s' = inaccurate s"
  using run_restored[of ver n c s v s'] by (simp add: restored_def)

lemma stack_kept_refl: "stack_kept s s"
  by (simp add: stack_kept_def)

lemma stack_kept_trans: "stack_kept s s1 \<Longrightarrow> stack_kept s1 s2 \<Longrightarrow> stack_kept s s2"
  unfolding stack_kept_def
  by (metis append_eq_conv_conj append.assoc append_take_drop_id)

lemma take_kept_trans:
  "take (length a) b = a \<Longrightarrow> take (length b) c = b \<Longrightarrow> take (length a) c = (a::'a list)"
  by (metis append_eq_conv_conj append.assoc append_take_drop_id)

lemma stack_kept_eq: "effectStack s' = effectStack s \<Longrightarrow> stack_kept s s'"
  by (simp add: stack_kept_def)

lemma stack_kept_end:
  assumes "stack_kept (begin_run U s) s1"
  shows "stack_kept s (end_run s1) \<and> stack_kept s (unwind s1)"
proof (intro conjI)
  from assms obtain zs where z: "effectStack s1 = (effectStack s @ [U]) @ zs"
    unfolding stack_kept_def by (metis append_take_drop_id prim_context(13))
  from z
  show "stack_kept s (end_run s1)"
    by (cases zs rule: rev_cases) (simp_all add: stack_kept_def z butlast_append)
  from z show "stack_kept s (unwind s1)"
    by (simp add: stack_kept_def z)
qed

lemma run_stack_kept: "follows stack_kept stack_kept s (run ver n c s)"
  by (rule run_follows[where R=stack_kept and T=stack_kept,
        OF stack_kept_refl stack_kept_trans stack_kept_trans stack_kept_trans stack_kept_trans])
     (simp_all add: stack_kept_eq get_trap_context get_trap_raise_context value_trap_context
        stack_kept_end)

lemma attributed_begin: "attributed (begin_run U s)"
  by (simp add: attributed_def reader_def)

lemma attributed_run:
  "attributed s \<Longrightarrow> run ver n c s = Returns v s' \<Longrightarrow> raises s' = raises s \<Longrightarrow> attributed s'"
  using attributed_balanced run_balanced run_running by blast

section \<open>C6: restoring the execution context\<close>


text \<open>
  Returning is not enough for the context to be restored: a unit whose computation
  catches the error of a unit it creates,
  \<^verbatim>\<open>effect(() => { try { effect(() => { throw 1 }) } catch (e) {} })\<close>, returns
  normally, and leaves itself current and on the stack (the inner unit's entry was
  never popped, so the outer pop removed that one).
\<close>

lemma caught_raise_skips_restore:
  "returned (eval V48 8 caught_raise (init no_data)) = Some (VFun 0) \<and>
   map_option activeEffect (result_state (eval V48 8 caught_raise (init no_data))) = Some (Fn 0) \<and>
   map_option effectStack (result_state (eval V48 8 caught_raise (init no_data))) = Some [0]"
  by (simp add: eval_defs caught_raise_def)



section \<open>C8: a read while no unit is running\<close>

text \<open>In 4.8 track returns at once when activeEffect is null or undefined: the state,
  and with it the registry and every deps list, is unchanged, and the get trap returns
  the field.\<close>

lemma track_without_unit:
  "activeEffect s = Null \<or> activeEffect s = Undefined \<Longrightarrow> track t k s = s"
  by (auto simp: track_def)

lemma get_trap_without_unit:
  "activeEffect s = Null \<or> activeEffect s = Undefined \<Longrightarrow>
     get_trap V48 t k s =
       Inr (data s t k, log (EvRead (activeEffect s) (reader s) (Obj t) k (data s t k)) s)"
  by (auto simp: get_trap_def track_ver_def track_def)

text \<open>
  C8 holds for track of 4.8 (above) and fails for track of 4-6.js, which lacks the guard.
  Reading \<^verbatim>\<open>obj.foo\<close> at top level in 4-6.js, before any effect (activeEffect null)
  or after the file's own effect has finished (activeEffect undefined), raises a
  TypeError, and by then the registry has been modified: null, respectively undefined,
  has been added to the subscriber Set of foo.
\<close>

theorem track_4_6_without_unit_raises:
  "raised (eval V46 2 (Get 0 ''foo'') (init data_4_6)) = Some TypeError \<and>
   map_option (\<lambda>s. subscribers s (Obj 0) ''foo'')
     (result_state (eval V46 2 (Get 0 ''foo'') (init data_4_6))) = Some [Null] \<and>
   raised (eval V46 6 (Seq (Effect (Get 0 ''foo'') False None) (Get 0 ''foo'')) (init data_4_6))
     = Some TypeError \<and>
   map_option (\<lambda>s. subscribers s (Obj 0) ''foo'')
     (result_state (eval V46 6 (Seq (Effect (Get 0 ''foo'') False None) (Get 0 ''foo''))
        (init data_4_6))) = Some [Fn 0, Undefined]"
  by (simp add: eval_defs)

section \<open>How each state change acts on the registry\<close>

lemma nth_list_update_total:
  "xs[i := y] ! j = (if i = j \<and> i < length xs then y else xs ! j)"
  by (cases "i < length xs") (auto simp: nth_list_update list_update_beyond)

lemma log_view [simp]:
  "sets (log ev s) = sets s" "bucket (log ev s) = bucket s" "data (log ev s) = data s"
  "activeEffect (log ev s) = activeEffect s" "effectStack (log ev s) = effectStack s"
  "effects (log ev s) = effects s" "computeds (log ev s) = computeds s"
  "trace (log ev s) = ev # trace s" "deps_addr (log ev s) = deps_addr s"
  by (simp_all add: log_def deps_addr_def fun_eq_iff)

lemma set_store_view [simp]:
  "sets (set_store t k v s) = sets s" "bucket (set_store t k v s) = bucket s"
  "data (set_store t k v s) = (data s)(t := (data s t)(k := v))"
  "effects (set_store t k v s) = effects s" "computeds (set_store t k v s) = computeds s"
  "trace (set_store t k v s) = EvWrite t k v # trace s"
  "deps_addr (set_store t k v s) = deps_addr s"
  by (simp_all add: set_store_def log_def deps_addr_def fun_eq_iff)

lemma set_dirty_view [simp]:
  "sets (set_dirty c b s) = sets s" "bucket (set_dirty c b s) = bucket s"
  "data (set_dirty c b s) = data s"
  "effects (set_dirty c b s) = effects s" "length (computeds (set_dirty c b s)) = length (computeds s)"
  "ceffect (computeds (set_dirty c b s) ! c') = ceffect (computeds s ! c')"
  "cvalue (computeds (set_dirty c b s) ! c') = cvalue (computeds s ! c')"
  "trace (set_dirty c b s) = trace s"
  "deps_addr (set_dirty c b s) = deps_addr s"
  by (simp_all add: set_dirty_def deps_addr_def fun_eq_iff nth_list_update_total)

lemma set_cvalue_view [simp]:
  "sets (set_cvalue c v s) = sets s" "bucket (set_cvalue c v s) = bucket s"
  "data (set_cvalue c v s) = data s"
  "effects (set_cvalue c v s) = effects s" "length (computeds (set_cvalue c v s)) = length (computeds s)"
  "ceffect (computeds (set_cvalue c v s) ! c') = ceffect (computeds s ! c')"
  "dirty (computeds (set_cvalue c v s) ! c') = dirty (computeds s ! c')"
  "trace (set_cvalue c v s) = trace s"
  "deps_addr (set_cvalue c v s) = deps_addr s"
  by (simp_all add: set_cvalue_def deps_addr_def fun_eq_iff nth_list_update_total)

lemma collect_view [simp]:
  "length (sets (new_effectsToRun eff s)) = Suc (length (sets s))"
  "a < length (sets s) \<Longrightarrow> sets (new_effectsToRun eff s) ! a = sets s ! a"
  "bucket (new_effectsToRun eff s) = bucket s"
  "data (new_effectsToRun eff s) = data s"
  "effects (new_effectsToRun eff s) = effects s" "computeds (new_effectsToRun eff s) = computeds s"
  "trace (new_effectsToRun eff s) = trace s"
  "deps_addr (new_effectsToRun eff s) = deps_addr s"
  by (simp_all add: new_effectsToRun_def deps_addr_def fun_eq_iff nth_append)

lemma new_effect_view [simp]:
  "sets (new_effect ver f lz sc s) = sets s" "bucket (new_effect ver f lz sc s) = bucket s"
  "data (new_effect ver f lz sc s) = data s"
  "length (effects (new_effect ver f lz sc s)) = Suc (length (effects s))"
  "U < length (effects s) \<Longrightarrow> effects (new_effect ver f lz sc s) ! U = effects s ! U"
  "deps (effects (new_effect ver f lz sc s) ! length (effects s)) = []"
  "fn (effects (new_effect ver f lz sc s) ! length (effects s)) = f"
  "computeds (new_effect ver f lz sc s) = computeds s"
  "trace (new_effect ver f lz sc s) = trace s"
  "deps_addr (new_effect ver f lz sc s) = deps_addr s"
  by (simp_all add: new_effect_def deps_addr_def fun_eq_iff nth_append split: version.splits)

lemma new_computed_view [simp]:
  "sets (new_computed g s) = sets s" "bucket (new_computed g s) = bucket s"
  "data (new_computed g s) = data s"
  "activeEffect (new_computed g s) = activeEffect s" "effectStack (new_computed g s) = effectStack s"
  "length (effects (new_computed g s)) = Suc (length (effects s))"
  "U < length (effects s) \<Longrightarrow> effects (new_computed g s) ! U = effects s ! U"
  "deps (effects (new_computed g s) ! length (effects s)) = []"
  "length (computeds (new_computed g s)) = Suc (length (computeds s))"
  "c < length (computeds s) \<Longrightarrow> computeds (new_computed g s) ! c = computeds s ! c"
  "ceffect (computeds (new_computed g s) ! length (computeds s)) = length (effects s)"
  "trace (new_computed g s) = trace s"
  "deps_addr (new_computed g s) = deps_addr s"
  by (simp_all add: new_computed_def new_effect_def deps_addr_def fun_eq_iff nth_append Let_def)

lemma end_run_view [simp]:
  "sets (end_run s) = sets s" "bucket (end_run s) = bucket s"
  "data (end_run s) = data s"
  "effects (end_run s) = effects s" "computeds (end_run s) = computeds s"
  "trace (end_run s) = trace s"
  "deps_addr (end_run s) = deps_addr s"
  by (simp_all add: end_run_def deps_addr_def fun_eq_iff)

lemma unwind_view [simp]:
  "sets (unwind s) = sets s" "bucket (unwind s) = bucket s"
  "data (unwind s) = data s"
  "effects (unwind s) = effects s" "computeds (unwind s) = computeds s"
  "trace (unwind s) = trace s"
  "deps_addr (unwind s) = deps_addr s"
  by (simp_all add: unwind_def deps_addr_def fun_eq_iff)

lemmas wf_defs = wf_def addrs_valid_def addrs_inj_def deps_registered_def units_exist_def

lemma wf_set_store: "wf s \<Longrightarrow> wf (set_store t k v s)"
  unfolding wf_defs by simp

lemma wf_set_dirty: "wf s \<Longrightarrow> wf (set_dirty c b s)"
  unfolding wf_defs by simp

lemma wf_set_cvalue: "wf s \<Longrightarrow> wf (set_cvalue c v s)"
  unfolding wf_defs by simp

lemma wf_collect: "wf s \<Longrightarrow> wf (new_effectsToRun eff s)"
  unfolding wf_defs by (simp add: less_Suc_eq)

lemma wf_new_effect: "wf s \<Longrightarrow> wf (new_effect ver f lz sc s)"
  unfolding wf_defs by (auto simp add: less_Suc_eq)

lemma wf_new_computed: "wf s \<Longrightarrow> wf (new_computed g s)"
  unfolding wf_defs by (auto simp add: less_Suc_eq)

lemma wf_unwind: "wf s \<Longrightarrow> wf (unwind s)"
  unfolding wf_defs by simp

lemma wf_end_run: "wf s \<Longrightarrow> wf (end_run s)"
  unfolding wf_defs
  by (auto simp add: stack_top_def dest: in_set_butlastD split: if_splits)
     (metis in_set_butlastD last_in_set)

lemma set_add_mem: "Some y \<in> set (set_add es x) \<longleftrightarrow> y = x \<or> Some y \<in> set es"
  by (auto simp: set_add_def)

lemma set_delete_mem: "Some y \<in> set (set_delete es x) \<longleftrightarrow> Some y \<in> set es \<and> y \<noteq> x"
  by (auto simp: set_delete_def)

lemma get_deps_fst: "fst (get_deps t k s) = track_addr s t k"
  by (simp add: get_deps_def track_addr_def deps_addr_def split: option.splits)

lemma track_register:
  "track t k s = (case activeEffect s of
       Fn U \<Rightarrow> push_dep U (track_addr s t k) (register t k (Fn U) s) | _ \<Rightarrow> s)"
  by (simp add: track_def register_def case_prod_beta get_deps_fst split: aref.splits)

lemma track_4_6_register:
  "track_4_6 t k s = (case activeEffect s of
       Fn U \<Rightarrow> Inr (push_dep U (track_addr s t k) (register t k (Fn U) s))
     | x \<Rightarrow> Inl (TypeError, register t k x s))"
  by (simp add: track_4_6_def register_def case_prod_beta get_deps_fst Let_def split: aref.splits)

lemma get_deps_Some: "deps_addr s t k = Some a \<Longrightarrow> snd (get_deps t k s) = s"
  by (simp add: get_deps_def deps_addr_def split: option.splits)

lemma get_deps_None:
  "deps_addr s t k = None \<Longrightarrow>
     snd (get_deps t k s) =
       s\<lparr>sets := sets s @ [[]],
         bucket := (bucket s)(t \<mapsto>
           (case bucket s t of None \<Rightarrow> Map.empty | Some m \<Rightarrow> m)(k \<mapsto> length (sets s)))\<rparr>"
  by (simp add: get_deps_def deps_addr_def split: option.splits)

lemma register_Some:
  "deps_addr s t k = Some a \<Longrightarrow> register t k x s = s\<lparr>sets := (sets s)[a := set_add (sets s ! a) x]\<rparr>"
  by (simp add: register_def get_deps_Some track_addr_def add_to_set_def)

lemma register_None:
  "deps_addr s t k = None \<Longrightarrow>
     register t k x s =
       s\<lparr>sets := sets s @ [[Some x]],
         bucket := (bucket s)(t \<mapsto>
           (case bucket s t of None \<Rightarrow> Map.empty | Some m \<Rightarrow> m)(k \<mapsto> length (sets s)))\<rparr>"
  by (simp add: register_def get_deps_None track_addr_def add_to_set_def set_add_def)

lemma register_deps_addr [simp]:
  "deps_addr (register t k x s) t' k' =
     (if t' = t \<and> k' = k then Some (track_addr s t k) else deps_addr s t' k')"
proof (cases "deps_addr s t k")
  case None
  then show ?thesis
    by (simp add: register_None track_addr_def) (simp add: deps_addr_def split: option.splits)
next
  case (Some a)
  then show ?thesis
    by (simp add: register_Some track_addr_def) (auto simp add: deps_addr_def)
qed

lemma register_view [simp]:
  "length (sets (register t k x s)) =
     (if deps_addr s t k = None then Suc (length (sets s)) else length (sets s))"
  "effects (register t k x s) = effects s" "computeds (register t k x s) = computeds s"
  "trace (register t k x s) = trace s" "data (register t k x s) = data s"
  "activeEffect (register t k x s) = activeEffect s" "effectStack (register t k x s) = effectStack s"
  by (cases "deps_addr s t k"; simp add: register_None register_Some)+

lemma register_mem:
  assumes "\<And>a. deps_addr s t k = Some a \<Longrightarrow> a < length (sets s)"
    and "b < length (sets (register t k x s))"
  shows "Some y \<in> set (sets (register t k x s) ! b) \<longleftrightarrow>
     (b = track_addr s t k \<and> y = x) \<or> (b < length (sets s) \<and> Some y \<in> set (sets s ! b))"
proof (cases "deps_addr s t k")
  case None
  with assms(2) show ?thesis
    by (auto simp add: register_None track_addr_def nth_append less_Suc_eq)
next
  case (Some a)
  with assms show ?thesis
    by (auto simp add: register_Some track_addr_def nth_list_update_total set_add_mem)
qed

lemma push_dep_view [simp]:
  "sets (push_dep U a s) = sets s" "deps_addr (push_dep U a s) = deps_addr s"
  "length (effects (push_dep U a s)) = length (effects s)"
  "deps (effects (push_dep U a s) ! V) =
     (if V = U \<and> U < length (effects s) then deps (effects s ! U) @ [a] else deps (effects s ! V))"
  "fn (effects (push_dep U a s) ! V) = fn (effects s ! V)"
  "opt_scheduler (effects (push_dep U a s) ! V) = opt_scheduler (effects s ! V)"
  "computeds (push_dep U a s) = computeds s"
  "trace (push_dep U a s) = trace s" "data (push_dep U a s) = data s"
  "activeEffect (push_dep U a s) = activeEffect s" "effectStack (push_dep U a s) = effectStack s"
  by (auto simp: push_dep_def deps_addr_def nth_list_update_total fun_eq_iff)

lemma foldl_delete_length:
  "length (foldl (\<lambda>ss a. ss[a := set_delete (ss ! a) x]) ss as) = length ss"
  by (induction as arbitrary: ss) auto

lemma foldl_delete_mem:
  "b < length ss \<Longrightarrow>
   Some y \<in> set (foldl (\<lambda>ss a. ss[a := set_delete (ss ! a) x]) ss as ! b) \<longleftrightarrow>
     Some y \<in> set (ss ! b) \<and> \<not> (y = x \<and> b \<in> set as)"
  by (induction as arbitrary: ss) (auto simp: nth_list_update_total set_delete_mem)

lemma cleanup_view [simp]:
  "length (sets (cleanup U s)) = length (sets s)" "deps_addr (cleanup U s) = deps_addr s"
  "length (effects (cleanup U s)) = length (effects s)"
  "deps (effects (cleanup U s) ! V) =
     (if V = U \<and> U < length (effects s) then [] else deps (effects s ! V))"
  "fn (effects (cleanup U s) ! V) = fn (effects s ! V)"
  "opt_scheduler (effects (cleanup U s) ! V) = opt_scheduler (effects s ! V)"
  "computeds (cleanup U s) = computeds s"
  "trace (cleanup U s) = trace s" "data (cleanup U s) = data s"
  "activeEffect (cleanup U s) = activeEffect s" "effectStack (cleanup U s) = effectStack s"
  by (auto simp: cleanup_def deps_addr_def nth_list_update_total fun_eq_iff foldl_delete_length)

lemma cleanup_mem:
  "b < length (sets s) \<Longrightarrow>
   Some y \<in> set (sets (cleanup U s) ! b) \<longleftrightarrow>
     Some y \<in> set (sets s ! b) \<and> \<not> (y = Fn U \<and> b \<in> set (deps (effects s ! U)))"
  by (simp add: cleanup_def foldl_delete_mem)

lemma deps_addr_context [simp]:
  "deps_addr (s\<lparr>activeEffect := x\<rparr>) = deps_addr s"
  "deps_addr (s\<lparr>effectStack := y\<rparr>) = deps_addr s"
  "deps_addr (s\<lparr>running := z\<rparr>) = deps_addr s"
  by (simp_all add: deps_addr_def fun_eq_iff)

lemma begin_run_view [simp]:
  "length (sets (begin_run U s)) = length (sets s)" "deps_addr (begin_run U s) = deps_addr s"
  "length (effects (begin_run U s)) = length (effects s)"
  "deps (effects (begin_run U s) ! V) =
     (if V = U \<and> U < length (effects s) then [] else deps (effects s ! V))"
  "fn (effects (begin_run U s) ! V) = fn (effects s ! V)"
  "opt_scheduler (effects (begin_run U s) ! V) = opt_scheduler (effects s ! V)"
  "computeds (begin_run U s) = computeds s"
  "trace (begin_run U s) = EvRun U # trace s" "data (begin_run U s) = data s"
  by (simp_all add: begin_run_def Let_def)

lemma begin_run_mem:
  "b < length (sets s) \<Longrightarrow>
   Some y \<in> set (sets (begin_run U s) ! b) \<longleftrightarrow>
     Some y \<in> set (sets s ! b) \<and> \<not> (y = Fn U \<and> b \<in> set (deps (effects s ! U)))"
  by (simp add: begin_run_def Let_def cleanup_mem)

lemma track_addr_Some [simp]: "deps_addr s t k = Some a \<Longrightarrow> track_addr s t k = a"
  by (simp add: track_addr_def)

lemma track_addr_None [simp]: "deps_addr s t k = None \<Longrightarrow> track_addr s t k = length (sets s)"
  by (simp add: track_addr_def)

lemma register_deps_addr_Some:
  "deps_addr s t k = Some a \<Longrightarrow> deps_addr (register t k x s) = deps_addr s"
  by (auto simp: fun_eq_iff)

lemma addrs_valid_register: "addrs_valid s \<Longrightarrow> addrs_valid (register t k x s)"
  unfolding addrs_valid_def by (cases "deps_addr s t k") (auto simp: less_Suc_eq)

lemma units_exist_register: "units_exist s \<Longrightarrow> units_exist (register t k x s)"
  unfolding units_exist_def by simp

lemma wf_log: "wf s \<Longrightarrow> wf (log ev s)"
  unfolding wf_defs by simp

lemma register_deps_addr_mono:
  "deps_addr s t0 k0 = Some a \<Longrightarrow> deps_addr (register t k x s) t0 k0 = Some a"
  by (cases "t0 = t \<and> k0 = k") auto

lemma deps_registered_register:
  assumes "deps_registered s" shows "deps_registered (register t k x s)"
  unfolding deps_registered_def
proof (intro allI impI)
  fix U a
  assume "U < length (effects (register t k x s)) \<and> a \<in> set (deps (effects (register t k x s) ! U))"
  then have "U < length (effects s) \<and> a \<in> set (deps (effects s ! U))" by simp
  with assms obtain t0 k0 where "deps_addr s t0 k0 = Some a"
    unfolding deps_registered_def by blast
  then have "deps_addr (register t k x s) t0 k0 = Some a" by (rule register_deps_addr_mono)
  then show "\<exists>t0 k0. deps_addr (register t k x s) t0 k0 = Some a" by blast
qed

lemma addrs_inj_register:
  assumes v: "addrs_valid s" and i: "addrs_inj s" shows "addrs_inj (register t k x s)"
proof (cases "deps_addr s t k")
  case None
  have fresh: "deps_addr s t' k' \<noteq> Some (length (sets s))" for t' k'
    using v unfolding addrs_valid_def by fastforce
  show ?thesis
    unfolding addrs_inj_def
  proof (intro allI impI)
    fix t1 k1 t2 k2 b
    assume h: "deps_addr (register t k x s) t1 k1 = Some b \<and>
               deps_addr (register t k x s) t2 k2 = Some b"
    show "t1 = t2 \<and> k1 = k2"
    proof (cases "t1 = t \<and> k1 = k")
      case True
      with h None have b: "b = length (sets s)" by simp
      show ?thesis
      proof (cases "t2 = t \<and> k2 = k")
        case True
        with \<open>t1 = t \<and> k1 = k\<close> show ?thesis by simp
      next
        case False
        with h b have "deps_addr s t2 k2 = Some (length (sets s))" by simp
        with fresh show ?thesis by simp
      qed
    next
      case False
      with h have b1: "deps_addr s t1 k1 = Some b" by simp
      show ?thesis
      proof (cases "t2 = t \<and> k2 = k")
        case True
        with h None have "b = length (sets s)" by simp
        with b1 fresh show ?thesis by simp
      next
        case False
        with h have "deps_addr s t2 k2 = Some b" by simp
        with b1 i show ?thesis unfolding addrs_inj_def by blast
      qed
    qed
  qed
next
  case (Some a)
  with i show ?thesis
    unfolding addrs_inj_def register_deps_addr_Some[OF Some] by simp
qed

lemma wf_register: "wf s \<Longrightarrow> wf (register t k x s)"
  unfolding wf_def
  by (simp add: addrs_valid_register addrs_inj_register deps_registered_register
      units_exist_register)

lemma wf_push_dep:
  assumes "wf s" and a: "deps_addr s t k = Some a" shows "wf (push_dep U a s)"
proof -
  have "deps_registered (push_dep U a s)"
    unfolding deps_registered_def
  proof (intro allI impI)
    fix V b
    assume h: "V < length (effects (push_dep U a s)) \<and> b \<in> set (deps (effects (push_dep U a s) ! V))"
    then have "b = a \<or> (V < length (effects s) \<and> b \<in> set (deps (effects s ! V)))"
      by (auto split: if_splits)
    then show "\<exists>t k. deps_addr (push_dep U a s) t k = Some b"
    proof
      assume "b = a"
      with a show ?thesis by auto
    next
      assume "V < length (effects s) \<and> b \<in> set (deps (effects s ! V))"
      with assms(1) show ?thesis unfolding wf_def deps_registered_def by simp
    qed
  qed
  moreover have "addrs_valid (push_dep U a s)" "addrs_inj (push_dep U a s)" "units_exist (push_dep U a s)"
    using assms(1) unfolding wf_def addrs_valid_def addrs_inj_def units_exist_def by simp_all
  ultimately show ?thesis unfolding wf_def by simp
qed

lemma wf_push_register:
  assumes "wf s" shows "wf (push_dep U (track_addr s t k) (register t k x s))"
proof -
  have "wf (register t k x s)" by (rule wf_register[OF assms])
  moreover have "deps_addr (register t k x s) t k = Some (track_addr s t k)" by simp
  ultimately show ?thesis by (rule wf_push_dep)
qed

lemma wf_track: assumes "wf s" shows "wf (track t k s)"
  by (cases "activeEffect s") (simp_all add: track_register assms wf_push_register)

lemma get_trap_Inr:
  "get_trap ver t k s = Inr (v, s') \<Longrightarrow>
     v = data s t k \<and> s' = log (EvRead (activeEffect s) (reader s) (Obj t) k (data s t k)) (track (Obj t) k s)
     \<and> (ver = V46 \<longrightarrow> (\<exists>U. activeEffect s = Fn U))"
  by (cases ver; cases "activeEffect s")
     (auto simp: get_trap_def track_ver_def track_4_6_register track_register)

lemma get_trap_Inl:
  "get_trap ver t k s = Inl (x, s') \<Longrightarrow>
     ver = V46 \<and> x = TypeError \<and> (activeEffect s = Null \<or> activeEffect s = Undefined)
     \<and> s' = register (Obj t) k (activeEffect s) s"
  by (cases ver; cases "activeEffect s")
     (auto simp: get_trap_def track_ver_def track_4_6_register track_register)

lemma wf_get_trap:
  assumes "wf s" shows "get_trap ver t k s = Inr (v, s') \<Longrightarrow> wf s'"
    and "get_trap ver t k s = Inl (x, s') \<Longrightarrow> wf s'"
  using assms by (auto dest!: get_trap_Inr get_trap_Inl simp: wf_log wf_track wf_register)

lemma wf_value_trap: "wf s \<Longrightarrow> value_trap c s = (v, s') \<Longrightarrow> wf s'"
  by (auto simp: value_trap_def wf_log wf_track)

lemma wf_begin_run:
  assumes "wf s" and U: "U < length (effects s)" shows "wf (begin_run U s)"
proof -
  have "addrs_valid (begin_run U s)" "addrs_inj (begin_run U s)"
    using assms(1) unfolding wf_def addrs_valid_def addrs_inj_def by simp_all
  moreover have "deps_registered (begin_run U s)"
    unfolding deps_registered_def
  proof (intro allI impI)
    fix V b
    assume h: "V < length (effects (begin_run U s)) \<and> b \<in> set (deps (effects (begin_run U s) ! V))"
    then have "V < length (effects s) \<and> b \<in> set (deps (effects s ! V))"
      by (cases "V = U \<and> U < length (effects s)") auto
    with assms(1) show "\<exists>t k. deps_addr (begin_run U s) t k = Some b"
      unfolding wf_def deps_registered_def by simp
  qed
  moreover have "units_exist (begin_run U s)"
    using assms unfolding wf_def units_exist_def by simp
  ultimately show ?thesis unfolding wf_def by simp
qed

lemma step_wf: "step ver s s' \<Longrightarrow> wf s \<Longrightarrow> wf s'"
proof (induction rule: step.induct)
  case (step_get t k s v s')
  from wf_get_trap(1)[OF step_get(2) step_get(1)] show ?case .
next
  case (step_get_raise t k s x s')
  from wf_get_trap(2)[OF step_get_raise(2) step_get_raise(1)] show ?case .
next
  case (step_store s t k v)
  then show ?case by (rule wf_set_store)
next
  case (step_new_effect s f lz sc)
  then show ?case by (rule wf_new_effect)
next
  case (step_new_computed s g)
  then show ?case by (rule wf_new_computed)
next
  case (step_begin U s)
  from wf_begin_run[OF step_begin(2) step_begin(1)] show ?case .
next
  case (step_end s)
  then show ?case by (rule wf_end_run)
next
  case (step_value c s v s')
  from wf_value_trap[OF step_value(2) step_value(1)] show ?case .
next
  case (step_dirty s c b)
  then show ?case by (rule wf_set_dirty)
next
  case (step_cvalue s c v)
  then show ?case by (rule wf_set_cvalue)
next
  case (step_collect s eff)
  then show ?case by (rule wf_collect)
next
  case (step_raise s x)
  then show ?case by (rule wf_log)
next
  case (step_invoke s a y)
  then show ?case by (rule wf_log)
next
  case (step_unwind s)
  then show ?case by (rule wf_unwind)
qed

lemma steps_wf: "(step ver)\<^sup>*\<^sup>* s s' \<Longrightarrow> wf s \<Longrightarrow> wf s'"
  by (induction rule: rtranclp_induct) (auto intro: step_wf)

lemma by_steps_refl [simp]: "by_steps ver s (Returns v s)" "by_steps ver s (Throws x s)" "by_steps ver s Timeout"
  by (simp_all add: by_steps_def result_state_def)

lemma by_steps_step: "step ver s s1 \<Longrightarrow> by_steps ver s1 r \<Longrightarrow> by_steps ver s r"
  unfolding by_steps_def by (meson converse_rtranclp_into_rtranclp step_wf)

lemma by_steps_step_end [simp]:
  "step ver s s1 \<Longrightarrow> by_steps ver s (Returns v s1)" "step ver s s1 \<Longrightarrow> by_steps ver s (Throws x s1)"
  by (auto intro: by_steps_step)

lemma by_steps_bind: "by_steps ver s r \<Longrightarrow> (\<And>v s1. by_steps ver s1 (f v s1)) \<Longrightarrow> by_steps ver s (bind r f)"
  unfolding by_steps_def bind_def
  by (cases r) (auto simp: result_state_def dest: steps_wf intro: rtranclp_trans)

lemma by_steps_raise [simp]: "by_steps ver s (raise x s)"
  unfolding raise_def by (rule by_steps_step_end) (rule step_raise)

lemma by_steps_catch:
  "by_steps ver s r \<Longrightarrow> (\<And>x s1. by_steps ver s1 (h x s1)) \<Longrightarrow>
     by_steps ver s (case r of Timeout \<Rightarrow> Timeout | Throws x s1 \<Rightarrow> h x s1
                     | Returns v s1 \<Rightarrow> Returns v s1)"
  unfolding by_steps_def
  by (cases r) (auto simp: result_state_def dest: steps_wf intro: rtranclp_trans)

lemma by_steps_leave:
  "by_steps ver s r \<Longrightarrow>
     by_steps ver s (case r of Timeout \<Rightarrow> Timeout | Throws x s1 \<Rightarrow> Throws x (unwind s1)
                     | Returns v s1 \<Rightarrow> Returns (g v) (end_run s1))"
  unfolding by_steps_def
  by (cases r) (auto simp: result_state_def intro: rtranclp.rtrancl_into_rtrancl step_unwind step_end)

lemma by_steps_wf: "(wf s \<Longrightarrow> by_steps ver s r) \<Longrightarrow> by_steps ver s r"
  unfolding by_steps_def by blast

lemma run_by_steps_step:
  assumes IH: "\<And>ver c s. (wf s \<Longrightarrow> valid_call s c) \<Longrightarrow> by_steps ver s (run ver n c s)"
    and v: "wf s \<Longrightarrow> valid_call s c"
  shows "by_steps ver s (run ver (Suc n) c s)"
proof (cases c)
  case (Eval e)
  have triv: "\<And>s e. valid_call s (Eval e)" "\<And>s t k. valid_call s (Trigger t k)"
    by (simp_all add: valid_call_def)
  show ?thesis
  proof (cases e)
    case (Lit x)
    with Eval show ?thesis by (simp add: run_Suc)
  next
    case (Get t k)
    show ?thesis
    proof (cases "get_trap ver t k s")
      case (Inl p)
      then obtain x s1 where p: "get_trap ver t k s = Inl (x, s1)" by (cases p) simp
      show ?thesis
        unfolding Eval Get eval_Get p
        by (simp, rule by_steps_step[OF step_get_raise[OF p]]) simp
    next
      case (Inr p)
      then obtain x s1 where p: "get_trap ver t k s = Inr (x, s1)" by (cases p) simp
      from step_get[OF p] show ?thesis
        by (simp add: Eval Get run_Suc p)
    qed
  next
    case (Put t k e')
    show ?thesis
      unfolding Eval Put eval_Put
      apply (rule by_steps_bind)
       apply (rule IH, rule triv)
      apply (rule by_steps_step[OF step_store])
      apply (rule by_steps_bind)
       apply (rule IH, rule triv)
      apply simp
      done
  next
    case (Op2 f a b)
    with Eval show ?thesis
      by (auto simp: run_Suc triv intro!: by_steps_bind IH)
  next
    case (Seq a b)
    with Eval show ?thesis
      by (auto simp: run_Suc triv intro!: by_steps_bind IH)
  next
    case (Cond c a b)
    with Eval show ?thesis
      by (auto simp: run_Suc triv intro!: by_steps_bind IH)
  next
    case (Throw a)
    with Eval show ?thesis
      by (auto simp: run_Suc triv intro!: by_steps_bind IH)
  next
    case (TryCatch a b)
    show ?thesis
      unfolding Eval TryCatch eval_TryCatch
      by (rule by_steps_catch) (rule IH, rule triv)+
  next
    case (Effect f lz sc)
    have run: "by_steps v' (new_effect v' f' lz' sc' s)
        (bind (effectFn v' n (length (effects s)) (new_effect v' f' lz' sc' s))
           (\<lambda>_ s2. Returns w s2))" for w v' f' lz' sc'
      by (auto intro!: by_steps_bind IH simp: valid_call_def)
    show ?thesis
      unfolding Eval Effect eval_Effect Let_def
      by (rule by_steps_step[OF step_new_effect[where f=f and lz=lz
              and sc="map_option User_scheduler sc"]])
         (auto split: version.splits simp: run)
  next
    case (Computed g)
    have "by_steps v' s (Returns w (new_computed g s))" for v' w
      by (rule by_steps_step_end) (rule step_new_computed)
    with Eval Computed show ?thesis
      by (auto simp: run_Suc split: version.splits)
  next
    case (Value c)
    have a: "by_steps ver s1 (case value_trap c s1 of (w, s2) \<Rightarrow> Returns w s2)" for s1
    proof (cases "value_trap c s1")
      case (Pair w s2)
      from step_value[OF Pair] show ?thesis by (simp add: Pair)
    qed
    have b: "by_steps ver s1 (case value_trap c (set_dirty c False (set_cvalue c v s1)) of
                   (w, s2) \<Rightarrow> Returns w s2)" for s1 v
      by (rule by_steps_step[OF step_cvalue]) (rule by_steps_step[OF step_dirty], rule a)
    have "wf s \<Longrightarrow> c < length (computeds s) \<Longrightarrow> valid_call s (EffectFn (ceffect (computeds s ! c)))"
      by (simp add: valid_call_def wf_defs)
    with Eval Value show ?thesis
      by (auto simp: run_Suc a intro!: by_steps_bind IH b)
  next
    case (Call U)
    with Eval show ?thesis
      by (auto simp: run_Suc valid_call_def split: version.splits intro!: IH)
  qed
next
  case (EffectFn U)
  show ?thesis
  proof (rule by_steps_wf)
    assume "wf s"
    with v EffectFn have U: "U < length (effects s)" by (simp add: valid_call_def)
    show "by_steps ver s (run ver (Suc n) c s)"
      unfolding EffectFn effectFn_Suc
      by (rule by_steps_step[OF step_begin[OF U]], rule by_steps_leave)
         (auto intro!: IH simp: valid_call_def)
  qed
next
  case (Trigger t k)
  have "by_steps ver s (forEach_effectsToRun ver n (length (sets s)) 0 (new_effectsToRun eff s))" for eff
    by (rule by_steps_step[OF step_collect]) (auto intro!: IH simp: valid_call_def)
  with Trigger show ?thesis
    by (auto simp: run_Suc split: option.splits)
next
  case (ForEach a i)
  have "by_steps ver s (bind (invoke ver n y (log (EvInvoke a y) s))
      (\<lambda>_ s1. forEach_effectsToRun ver n a (Suc i) s1))" for y
    by (rule by_steps_step[OF step_invoke])
       (auto simp: valid_call_def intro!: by_steps_bind IH)
  with ForEach show ?thesis
    by (auto simp: run_Suc valid_call_def split: option.splits intro!: IH)
next
  case (Invoke x)
  have "by_steps ver s (trigger ver n (ComputedObj c') ''value'' (set_dirty c' True s))" for c'
    by (rule by_steps_step[OF step_dirty]) (auto intro!: IH simp: valid_call_def)
  with Invoke show ?thesis
    by (auto simp: run_Suc valid_call_def split: option.splits aref.splits version.splits sched.splits
        intro!: IH)
qed

lemma run_by_steps: "(wf s \<Longrightarrow> valid_call s c) \<Longrightarrow> by_steps ver s (run ver n c s)"
proof (induction n arbitrary: ver c s)
  case 0
  then show ?case by simp
next
  case (Suc n)
  show ?case by (rule run_by_steps_step[OF Suc.IH Suc.prems]) 
qed

lemma run_steps:
  "wf s \<Longrightarrow> valid_call s c \<Longrightarrow> result_state (run ver n c s) = Some s' \<Longrightarrow> (step ver)\<^sup>*\<^sup>* s s'"
  using run_by_steps[of s c ver n] by (simp add: by_steps_def)

lemma has_entry_simple [simp]:
  "has_entry (log ev s) = has_entry s"
  "has_entry (set_store t k v s) = has_entry s"
  "has_entry (set_dirty c b s) = has_entry s"
  "has_entry (set_cvalue c v s) = has_entry s"
  "has_entry (new_effect ver f lz sc s) = has_entry s"
  "has_entry (new_computed g s) = has_entry s"
  "has_entry (end_run s) = has_entry s"
  "has_entry (unwind s) = has_entry s"
  "has_entry (push_dep U a s) = has_entry s"
  by (simp_all add: has_entry_def fun_eq_iff)

lemma has_entry_collect:
  "a < length (sets s) \<Longrightarrow> has_entry (new_effectsToRun eff s) a x = has_entry s a x"
  by (simp add: has_entry_def)

lemma has_entry_register:
  assumes "addrs_valid s"
  shows "has_entry (register t k x s) b y \<longleftrightarrow> (b = track_addr s t k \<and> y = x) \<or> has_entry s b y"
proof -
  have v: "\<And>a. deps_addr s t k = Some a \<Longrightarrow> a < length (sets s)"
    using assms unfolding addrs_valid_def by blast
  have t: "track_addr s t k < length (sets (register t k x s))"
    by (cases "deps_addr s t k") (auto dest: v)
  show ?thesis
  proof (cases "b < length (sets (register t k x s))")
    case True
    have "Some y \<in> set (sets (register t k x s) ! b) \<longleftrightarrow>
       (b = track_addr s t k \<and> y = x) \<or> (b < length (sets s) \<and> Some y \<in> set (sets s ! b))"
      by (rule register_mem) (use v True in auto)
    with True show ?thesis
      by (auto simp: has_entry_def)
  next
    case False
    with t show ?thesis by (auto simp: has_entry_def split: if_splits)
  qed
qed

lemma has_entry_begin_run:
  "has_entry (begin_run U s) b y \<longleftrightarrow>
     has_entry s b y \<and> \<not> (y = Fn U \<and> b \<in> set (deps (effects s ! U)))"
  by (auto simp: has_entry_def begin_run_mem)

lemma consistent_simple:
  assumes "consistent s"
  shows "consistent (log ev s)" "consistent (set_store t k v s)" "consistent (set_dirty c b s)"
    "consistent (set_cvalue c v s)" "consistent (end_run s)" "consistent (unwind s)"
  using assms unfolding consistent_def by simp_all

lemma consistent_collect:
  assumes "addrs_valid s" "consistent s" shows "consistent (new_effectsToRun eff s)"
  using assms unfolding consistent_def addrs_valid_def
  by (simp add: has_entry_collect)

lemma consistent_new_effect:
  assumes "consistent s" shows "consistent (new_effect ver f lz sc s)"
  unfolding consistent_def
proof (intro allI impI)
  fix U t k a
  assume "deps_addr (new_effect ver f lz sc s) t k = Some a"
  then have a: "deps_addr s t k = Some a" by simp
  show "has_entry (new_effect ver f lz sc s) a (Fn U) \<longleftrightarrow>
     U < length (effects (new_effect ver f lz sc s)) \<and>
     a \<in> set (deps (effects (new_effect ver f lz sc s) ! U))"
  proof (cases "U < length (effects s)")
    case True
    with assms a show ?thesis unfolding consistent_def by simp
  next
    case False
    with assms a have "\<not> has_entry s a (Fn U)" unfolding consistent_def by blast
    moreover have "U < Suc (length (effects s)) \<Longrightarrow> U = length (effects s)"
      using False by simp
    ultimately show ?thesis by auto
  qed
qed

lemma consistent_new_computed:
  assumes "consistent s" shows "consistent (new_computed g s)"
  unfolding consistent_def
proof (intro allI impI)
  fix U t k a
  assume "deps_addr (new_computed g s) t k = Some a"
  then have a: "deps_addr s t k = Some a" by simp
  show "has_entry (new_computed g s) a (Fn U) \<longleftrightarrow>
     U < length (effects (new_computed g s)) \<and>
     a \<in> set (deps (effects (new_computed g s) ! U))"
  proof (cases "U < length (effects s)")
    case True
    with assms a show ?thesis unfolding consistent_def by simp
  next
    case False
    with assms a have "\<not> has_entry s a (Fn U)" unfolding consistent_def by blast
    moreover have "U < Suc (length (effects s)) \<Longrightarrow> U = length (effects s)"
      using False by simp
    ultimately show ?thesis by auto
  qed
qed

text \<open>A fresh address is in no deps list.\<close>

lemma fresh_not_dep:
  assumes "wf s" "U < length (effects s)"
  shows "length (sets s) \<notin> set (deps (effects s ! U))"
proof
  assume "length (sets s) \<in> set (deps (effects s ! U))"
  with assms obtain t k where "deps_addr s t k = Some (length (sets s))"
    unfolding wf_def deps_registered_def by blast
  with assms(1) show False unfolding wf_def addrs_valid_def by fastforce
qed

lemma consistent_at_track_addr:
  assumes "wf s" "consistent s"
  shows "has_entry s (track_addr s t k) (Fn V) \<longleftrightarrow>
     V < length (effects s) \<and> track_addr s t k \<in> set (deps (effects s ! V))"
proof (cases "deps_addr s t k")
  case None
  then show ?thesis
    using fresh_not_dep[OF assms(1)] by (auto simp: has_entry_def)
next
  case (Some a)
  with assms(2) show ?thesis unfolding consistent_def by simp
qed

lemma other_addr:
  assumes "wf s" "deps_addr s t' k' = Some b" "\<not> (t' = t \<and> k' = k)"
  shows "b \<noteq> track_addr s t k"
proof (cases "deps_addr s t k")
  case None
  with assms show ?thesis unfolding wf_def addrs_valid_def by fastforce
next
  case (Some a)
  have "addrs_inj s" using assms(1) by (simp add: wf_def)
  with Some assms(2,3) show ?thesis unfolding addrs_inj_def by (simp, blast)
qed

lemma consistent_register:
  assumes "wf s" "consistent s" "\<And>U. x \<noteq> Fn U" shows "consistent (register t k x s)"
  unfolding consistent_def
proof (intro allI impI)
  fix U t' k' b
  assume h: "deps_addr (register t k x s) t' k' = Some b"
  have av: "addrs_valid s" using assms(1) by (simp add: wf_def)
  show "has_entry (register t k x s) b (Fn U) \<longleftrightarrow>
     U < length (effects (register t k x s)) \<and> b \<in> set (deps (effects (register t k x s) ! U))"
  proof (cases "t' = t \<and> k' = k")
    case True
    with h have "b = track_addr s t k" by simp
    then show ?thesis
      using consistent_at_track_addr[OF assms(1,2), of t k U] assms(3)[of U]
      by (auto simp add: has_entry_register[OF av])
  next
    case False
    with h have b: "deps_addr s t' k' = Some b" by simp
    with assms(2) have "has_entry s b (Fn U) \<longleftrightarrow>
        U < length (effects s) \<and> b \<in> set (deps (effects s ! U))"
      unfolding consistent_def by blast
    then show ?thesis
      using assms(3)[of U] by (auto simp add: has_entry_register[OF av])
  qed
qed

lemma consistent_track_like:
  assumes "wf s" "consistent s" "U < length (effects s)"
  shows "consistent (push_dep U (track_addr s t k) (register t k (Fn U) s))"
  unfolding consistent_def
proof (intro allI impI)
  fix V t' k' b
  let ?s' = "push_dep U (track_addr s t k) (register t k (Fn U) s)"
  assume h: "deps_addr ?s' t' k' = Some b"
  have av: "addrs_valid s" using assms(1) by (simp add: wf_def)
  show "has_entry ?s' b (Fn V) \<longleftrightarrow> V < length (effects ?s') \<and> b \<in> set (deps (effects ?s' ! V))"
  proof (cases "t' = t \<and> k' = k")
    case True
    with h have "b = track_addr s t k" by simp
    then show ?thesis
      using consistent_at_track_addr[OF assms(1,2), of t k V] assms(3)
      by (auto simp add: has_entry_register[OF av])
  next
    case False
    with h have b: "deps_addr s t' k' = Some b" by simp
    from other_addr[OF assms(1) b False] have ne: "b \<noteq> track_addr s t k" .
    from b assms(2) have "has_entry s b (Fn V) \<longleftrightarrow>
        V < length (effects s) \<and> b \<in> set (deps (effects s ! V))"
      unfolding consistent_def by blast
    with ne show ?thesis
      by (auto simp add: has_entry_register[OF av])
  qed
qed

lemma consistent_track:
  assumes "wf s" "consistent s" shows "consistent (track t k s)"
proof (cases "activeEffect s")
  case (Fn U)
  with assms(1) have "U < length (effects s)" by (simp add: wf_defs)
  from consistent_track_like[OF assms this] Fn show ?thesis by (simp add: track_register)
qed (simp_all add: track_register assms)

lemma consistent_begin_run:
  assumes "consistent s" shows "consistent (begin_run U s)"
  unfolding consistent_def
proof (intro allI impI)
  fix V t k a
  assume "deps_addr (begin_run U s) t k = Some a"
  then have "deps_addr s t k = Some a" by simp
  with assms have "has_entry s a (Fn V) \<longleftrightarrow>
        V < length (effects s) \<and> a \<in> set (deps (effects s ! V))"
    unfolding consistent_def by blast
  then show "has_entry (begin_run U s) a (Fn V) \<longleftrightarrow>
      V < length (effects (begin_run U s)) \<and> a \<in> set (deps (effects (begin_run U s) ! V))"
    by (auto simp: has_entry_begin_run)
qed

lemma subscribed_simple [simp]:
  "subscribed (log ev s) = subscribed s"
  "subscribed (set_store t k v s) = subscribed s"
  "subscribed (set_dirty c b s) = subscribed s"
  "subscribed (set_cvalue c v s) = subscribed s"
  "subscribed (new_effect ver f lz sc s) = subscribed s"
  "subscribed (new_computed g s) = subscribed s"
  "subscribed (end_run s) = subscribed s"
  "subscribed (unwind s) = subscribed s"
  "subscribed (push_dep U a s) = subscribed s"
  by (simp_all add: subscribed_def fun_eq_iff)

lemma subscribed_collect:
  "addrs_valid s \<Longrightarrow> subscribed (new_effectsToRun eff s) = subscribed s"
  unfolding subscribed_def fun_eq_iff addrs_valid_def
  by (auto simp: has_entry_collect)

lemma subscribed_register:
  assumes "wf s"
  shows "subscribed (register t k x s) V t' k' \<longleftrightarrow>
     (t' = t \<and> k' = k \<and> x = Fn V) \<or> subscribed s V t' k'"
proof -
  have av: "addrs_valid s" using assms by (simp add: wf_def)
  show ?thesis
  proof (cases "t' = t \<and> k' = k")
    case True
    have "has_entry s (track_addr s t k) (Fn V) \<longleftrightarrow> subscribed s V t k"
    proof (cases "deps_addr s t k")
      case None
      then show ?thesis by (simp add: subscribed_def has_entry_def)
    next
      case (Some a)
      then show ?thesis by (simp add: subscribed_def)
    qed
    with True show ?thesis
      by (auto simp: subscribed_def has_entry_register[OF av])
  next
    case False
    show ?thesis
    proof (cases "deps_addr s t' k'")
      case None
      with False show ?thesis by (auto simp add: subscribed_def)
    next
      case (Some b)
      from other_addr[OF assms Some False] Some False show ?thesis
        by (auto simp add: subscribed_def has_entry_register[OF av])
    qed
  qed
qed

lemma subscribed_track:
  assumes "wf s"
  shows "subscribed (track t k s) V t' k' \<longleftrightarrow>
     (t' = t \<and> k' = k \<and> activeEffect s = Fn V) \<or> subscribed s V t' k'"
  by (cases "activeEffect s") (auto simp: track_register subscribed_register[OF assms])

lemma subscribed_begin_run:
  assumes "consistent s"
  shows "subscribed (begin_run U s) V t k \<longleftrightarrow> V \<noteq> U \<and> subscribed s V t k"
proof -
  have "deps_addr s t k = Some a \<Longrightarrow> has_entry s a (Fn U) \<Longrightarrow> a \<in> set (deps (effects s ! U))" for a
    using assms unfolding consistent_def by blast
  then show ?thesis
    by (auto simp: subscribed_def has_entry_begin_run)
qed

lemma tracks_reads_simple:
  assumes "tracks_reads s"
  shows "tracks_reads (set_store t k v s)" "tracks_reads (set_dirty c b s)"
    "tracks_reads (set_cvalue c v s)" "tracks_reads (end_run s)"
    "tracks_reads (new_effect ver f lz sc s)" "tracks_reads (new_computed g s)"
    "tracks_reads (unwind s)" "tracks_reads (log (EvRaise x) s)"
    "tracks_reads (log (EvInvoke a y) s)"
  using assms unfolding tracks_reads_def by simp_all

lemma tracks_reads_collect:
  "addrs_valid s \<Longrightarrow> tracks_reads s \<Longrightarrow> tracks_reads (new_effectsToRun eff s)"
  unfolding tracks_reads_def by (simp add: subscribed_collect)

lemma tracks_reads_read:
  assumes "wf s" "tracks_reads s"
  shows "tracks_reads (log (EvRead (activeEffect s) r t k v) (track t k s))"
proof -
  have "trace (track t k s) = trace s"
    by (cases "activeEffect s") (simp_all add: track_register)
  with assms(2) show ?thesis
    unfolding tracks_reads_def by (auto simp: subscribed_track[OF assms(1)])
qed

lemma tracks_reads_register:
  assumes "wf s" "tracks_reads s" "\<And>U. x \<noteq> Fn U"
  shows "tracks_reads (register t k x s)"
  using assms(2,3) unfolding tracks_reads_def by (auto simp: subscribed_register[OF assms(1)])

lemma tracks_reads_begin_run:
  assumes "consistent s" "tracks_reads s"
  shows "tracks_reads (begin_run U s)"
  using assms(2) unfolding tracks_reads_def by (auto simp: subscribed_begin_run[OF assms(1)])

lemma inv_read:
  assumes "inv s" shows "inv (log (EvRead (activeEffect s) r t k v) (track t k s))"
  using assms unfolding inv_def
  by (simp add: wf_log wf_track consistent_simple(1) consistent_track tracks_reads_read)

lemma step_inv: "step ver s s' \<Longrightarrow> inv s \<Longrightarrow> inv s'"
proof (induction rule: step.induct)
  case (step_get t k s v s')
  from get_trap_Inr[OF step_get(1)] inv_read[OF step_get(2)] show ?case by simp
next
  case (step_get_raise t k s x s')
  from get_trap_Inl[OF step_get_raise(1)]
  have s': "s' = register (Obj t) k (activeEffect s) s"
    and x: "\<And>U. activeEffect s \<noteq> Fn U" by auto
  from step_get_raise(2) show ?case
    unfolding inv_def s'
    by (simp add: wf_register consistent_register[OF _ _ x] tracks_reads_register[OF _ _ x])
next
  case (step_store s t k v)
  then show ?case
    unfolding inv_def by (simp add: wf_set_store consistent_simple tracks_reads_simple)
next
  case (step_new_effect s f lz sc)
  then show ?case
    unfolding inv_def by (simp add: wf_new_effect consistent_new_effect tracks_reads_simple)
next
  case (step_new_computed s g)
  then show ?case
    unfolding inv_def by (simp add: wf_new_computed consistent_new_computed tracks_reads_simple)
next
  case (step_begin U s)
  then show ?case
    unfolding inv_def by (simp add: wf_begin_run consistent_begin_run tracks_reads_begin_run)
next
  case (step_end s)
  then show ?case
    unfolding inv_def by (simp add: wf_end_run consistent_simple tracks_reads_simple)
next
  case (step_value c s v s')
  then have "s' = log (EvRead (activeEffect s) (reader s) (ComputedObj c) ''value'' (cvalue (computeds s ! c)))
      (track (ComputedObj c) ''value'' s)"
    by (auto simp: value_trap_def)
  with inv_read[OF step_value(2)] show ?case by simp
next
  case (step_dirty s c b)
  then show ?case
    unfolding inv_def by (simp add: wf_set_dirty consistent_simple tracks_reads_simple)
next
  case (step_cvalue s c v)
  then show ?case
    unfolding inv_def by (simp add: wf_set_cvalue consistent_simple tracks_reads_simple)
next
  case (step_collect s eff)
  then show ?case
    unfolding inv_def wf_def
    by (simp add: wf_collect[unfolded wf_def] consistent_collect tracks_reads_collect)
next
  case (step_raise s x)
  then show ?case
    unfolding inv_def by (simp add: wf_log consistent_simple tracks_reads_simple)
next
  case (step_invoke s a y)
  then show ?case
    unfolding inv_def by (simp add: wf_log consistent_simple tracks_reads_simple)
next
  case (step_unwind s)
  then show ?case
    unfolding inv_def by (simp add: wf_unwind consistent_simple tracks_reads_simple)
qed

lemma steps_inv: "(step ver)\<^sup>*\<^sup>* s s' \<Longrightarrow> inv s \<Longrightarrow> inv s'"
  by (induction rule: rtranclp_induct) (auto intro: step_inv)

lemma inv_init: "inv (init d)"
  by (simp add: inv_def wf_defs consistent_def tracks_reads_def subscribed_def deps_addr_def init_def)

lemma run_inv:
  assumes "inv s" "valid_call s c" "result_state (run ver n c s) = Some s'"
  shows "inv s'"
proof -
  from assms(1) have "wf s" by (simp add: inv_def)
  from run_steps[OF this assms(2,3)] assms(1) show ?thesis by (rule steps_inv)
qed

section \<open>The history only grows\<close>

lemma track_trace [simp]: "trace (track t k s) = trace s"
  by (cases "activeEffect s") (simp_all add: track_register)

lemma step_trace: "step ver s s' \<Longrightarrow> \<exists>evs. trace s' = evs @ trace s"
proof (induction rule: step.induct)
  case (step_get t k s v s')
  from get_trap_Inr[OF this] show ?case by simp
next
  case (step_get_raise t k s x s')
  from get_trap_Inl[OF this] show ?case by simp
next
  case (step_value c s v s')
  then show ?case by (auto simp: value_trap_def)
qed simp_all

lemma steps_trace: "(step ver)\<^sup>*\<^sup>* s s' \<Longrightarrow> \<exists>evs. trace s' = evs @ trace s"
proof (induction rule: rtranclp_induct)
  case base
  then show ?case by simp
next
  case (step y z)
  from step_trace[OF step(2)] step(3) show ?case by auto
qed

lemma current_reads_later:
  "EvRun U \<notin> set later \<Longrightarrow> p \<in> current_reads U tr \<Longrightarrow> p \<in> current_reads U (later @ tr)"
proof (induction later)
  case Nil
  then show ?case by simp
next
  case (Cons ev later)
  then show ?case by (cases ev) auto
qed

lemma current_reads_cut:
  "current_reads U (evs @ EvRun U # tr) = current_reads U (evs @ [EvRun U])"
proof (induction evs)
  case Nil
  then show ?case by simp
next
  case (Cons ev evs)
  then show ?case by (cases ev) auto
qed

section \<open>C1 and C3: what a run leaves in the registry\<close>

lemma new_events_append: "trace s' = evs @ trace s \<Longrightarrow> new_events s s' = evs"
  by (simp add: new_events_def)

lemma accurate_reads: "list_all accurate evs \<Longrightarrow> current_reads U evs = own_reads U evs"
proof (induction evs)
  case Nil
  then show ?case by simp
next
  case (Cons ev evs)
  then show ?case by (cases ev) (auto split: option.splits)
qed

lemma own_reads_single:
  "EvRun U \<notin> set evs \<Longrightarrow> own_reads U (evs @ [EvRun U]) = reads_of U (evs @ [EvRun U])"
proof (induction evs)
  case Nil
  then show ?case by simp
next
  case (Cons ev evs)
  then show ?case by (cases ev) auto
qed

lemma inaccurate_append:
  assumes "trace s' = evs @ trace s" "inaccurate s' = inaccurate s"
  shows "list_all accurate evs"
proof -
  from assms have "filter (\<lambda>ev. \<not> accurate ev) evs = []"
    by (simp add: inaccurate_def)
  then show ?thesis by (simp add: filter_empty_conv list_all_iff)
qed

lemma runs_append:
  assumes "trace s' = evs @ EvRun U # trace s" "runs s' U = Suc (runs s U)"
  shows "EvRun U \<notin> set evs"
proof -
  from assms have "filter (\<lambda>ev. ev = EvRun U) evs = []"
    by (simp add: runs_def)
  then show ?thesis by (auto simp add: filter_empty_conv)
qed

text \<open>What a returning call of effectFn leaves behind.\<close>

lemma effectFn_returns:
  assumes i: "inv s" and U: "U < length (effects s)"
    and r: "effectFn ver n U s = Returns res s'"
  shows "inv s' \<and> (\<exists>evs. trace s' = evs @ EvRun U # trace s \<and>
           (raises s' = raises s \<longrightarrow> list_all accurate evs))"
proof -
  have vc: "valid_call s (EffectFn U)" using U by (simp add: valid_call_def)
  from r have "result_state (effectFn ver n U s) = Some s'" by (simp add: result_state_def)
  from run_inv[OF i vc this] have i': "inv s'" .
  from r obtain m where n: "n = Suc m" by (cases n) auto
  from r obtain v s1 where
    body: "eval ver m (fn (effects s ! U)) (begin_run U s) = Returns v s1"
    and s': "s' = end_run s1"
    unfolding n by (auto simp: effectFn_Suc split: outcome.splits)
  from i have "wf s" by (simp add: inv_def)
  then have w: "wf (begin_run U s)" using U by (rule wf_begin_run)
  from body have "result_state (eval ver m (fn (effects s ! U)) (begin_run U s)) = Some s1"
    by (simp add: result_state_def)
  from run_steps[OF w _ this] have "(step ver)\<^sup>*\<^sup>* (begin_run U s) s1"
    by (simp add: valid_call_def)
  from steps_trace[OF this] obtain evs where e: "trace s1 = evs @ trace (begin_run U s)"
    by blast
  then have tr: "trace s' = evs @ EvRun U # trace s"
    by (simp add: s')
  have "list_all accurate evs" if "raises s' = raises s"
  proof -
    from that have "raises s1 = raises (begin_run U s)" by (simp add: s')
    from run_accurate[OF body this attributed_begin] e show ?thesis
      by (rule inaccurate_append[rotated])
  qed
  with i' tr show ?thesis by blast
qed

text \<open>After a call of effectFn U that returned, and during which nothing was raised, U is
  subscribed to exactly the fields its own computation read since the most recent
  start of one of its executions.\<close>

lemma effectFn_subscribed:
  assumes "inv s" and "U < length (effects s)" and "effectFn ver n U s = Returns res s'"
    and "raises s' = raises s"
  shows "subscribed s' U t k \<longleftrightarrow> (t, k) \<in> own_reads U (new_events s s')"
proof -
  from effectFn_returns[OF assms(1-3)] assms(4) obtain evs where
    i: "inv s'" and tr: "trace s' = evs @ EvRun U # trace s" and a: "list_all accurate evs"
    by blast
  from tr have "trace s' = (evs @ [EvRun U]) @ trace s" by simp
  from new_events_append[OF this] have ne: "new_events s s' = evs @ [EvRun U]" .
  have "current_reads U (trace s') = current_reads U (evs @ [EvRun U])"
    unfolding tr by (rule current_reads_cut)
  also have "\<dots> = own_reads U (evs @ [EvRun U])"
    by (rule accurate_reads) (simp add: a)
  finally have "current_reads U (trace s') = own_reads U (new_events s s')"
    by (simp add: ne)
  with i show ?thesis by (simp add: inv_def tracks_reads_def)
qed

lemmas example_defs = no_data_def state_after_def two_subscribers_def data_reentrant_def
  reentrant_units_def reentrant_state_def branch_unit_def branch_state_def new_events_def
  has_entry_def subscribed_def stale_state_def

text \<open>
  C1, as stated, fails under re-entrancy. Unit 1 reads cond and foo, then writes trig;
  that re-runs unit 0, which writes cond, which re-runs unit 1 while its first run is
  still going; cleanup removes unit 1 from the Sets of cond and foo, and the nested run
  (cond is now 0) reads cond only. When the outer call returns, unit 1 has read foo
  during the call and is not in foo's subscriber Set.
\<close>

theorem reentrant_run_drops_read:
  "returned (effectFn V48 20 1 reentrant_state) = Some (VNum 1) \<and>
   map_option (\<lambda>s. EvRead (Fn 1) (Some 1) (Obj 0) ''foo'' (VNum 1) \<in> set (new_events reentrant_state s))
     (result_state (effectFn V48 20 1 reentrant_state)) = Some True \<and>
   map_option (\<lambda>s. subscribers s (Obj 0) ''foo'')
     (result_state (effectFn V48 20 1 reentrant_state)) = Some [] \<and>
   map_option (\<lambda>s. subscribed s 1 (Obj 0) ''foo'')
     (result_state (effectFn V48 20 1 reentrant_state)) = Some False \<and>
   map_option (\<lambda>s. EvRead (Fn 1) (Some 1) (Obj 0) ''foo'' (VNum 1) \<in> set (trace s))
     (result_state (eval V46 22 reentrant_units (init data_reentrant))) = Some True \<and>
   map_option (\<lambda>s. subscribers s (Obj 0) ''foo'')
     (result_state (eval V46 22 reentrant_units (init data_reentrant))) = Some []"
  by (simp add: eval_defs example_defs)

text \<open>
  C1, amended. For every unit U and every call of its effectFn that returns, from a state
  satisfying the invariant (the initial state does, and every run keeps it): the registry
  and the deps lists are consistent afterwards (a unit is an entry of a field's subscriber
  Set exactly when that Set is an entry of the unit's deps); and if nothing was raised
  during the call (not even an error caught inside a computation), every field that
  U's own computation read during the call after the most recent start of an execution
  of U has U in its subscriber Set and that Set in U's deps.
  Not covered are a read that is followed, inside the same call, by a re-entrant
  execution of U, whose cleanup drops it (the counterexample above), and the reads of a
  call during which something was raised: a raise leaves activeEffect pointing at the
  unit that raised, and track records the reads that follow for that unit.
\<close>

theorem run_subscribes_latest_reads:
  assumes "inv s" and "U < length (effects s)" and "effectFn ver n U s = Returns res s'"
  shows "consistent s' \<and> trace s' = new_events s s' @ trace s \<and>
    (raises s' = raises s \<longrightarrow>
       (\<forall>t k. (t, k) \<in> own_reads U (new_events s s') \<longrightarrow>
          (\<exists>a. deps_addr s' t k = Some a \<and> has_entry s' a (Fn U) \<and>
               a \<in> set (deps (effects s' ! U)))))"
proof -
  from effectFn_returns[OF assms] obtain evs where
    i: "inv s'" and tr: "trace s' = evs @ EvRun U # trace s" by blast
  from tr have "trace s' = (evs @ [EvRun U]) @ trace s" by simp
  from new_events_append[OF this] have ne: "new_events s s' = evs @ [EvRun U]" .
  have "\<exists>a. deps_addr s' t k = Some a \<and> has_entry s' a (Fn U) \<and> a \<in> set (deps (effects s' ! U))"
    if q: "raises s' = raises s" and "(t, k) \<in> own_reads U (new_events s s')" for t k
  proof -
    from that effectFn_subscribed[OF assms q] have "subscribed s' U t k" by simp
    then obtain a where a: "deps_addr s' t k = Some a" "has_entry s' a (Fn U)"
      by (auto simp: subscribed_def)
    with i have "a \<in> set (deps (effects s' ! U))" unfolding inv_def consistent_def by blast
    with a show ?thesis by blast
  qed
  with i ne tr show ?thesis by (simp add: inv_def)
qed

lemma inv_branch_state: "inv branch_state"
proof -
  have "result_state (eval V48 6 branch_unit (init no_data))
      = Some (state_after (eval V48 6 branch_unit (init no_data)))"
    by (simp add: eval_defs example_defs)
  from run_inv[OF inv_init _ this] have "inv (state_after (eval V48 6 branch_unit (init no_data)))"
    by (simp add: valid_call_def)
  from step_inv[OF step_store this] show ?thesis by (simp add: branch_state_def)
qed

theorem run_subscribes_latest_reads_witness:
  "inv branch_state \<and> 0 < length (effects branch_state) \<and>
   (\<exists>res s'. effectFn V48 4 0 branch_state = Returns res s' \<and> consistent s' \<and>
      raises s' = raises branch_state \<and>
      own_reads 0 (new_events branch_state s') = {(Obj 0, ''a''), (Obj 0, ''cond'')} \<and>
      (\<exists>a. deps_addr s' (Obj 0) ''a'' = Some a \<and> has_entry s' a (Fn 0) \<and>
           a \<in> set (deps (effects s' ! 0))))"
proof -
  have l: "0 < length (effects branch_state)"
    by (simp add: eval_defs example_defs)
  obtain res s' where r: "effectFn V48 4 0 branch_state = Returns res s'"
    and q: "raises s' = raises branch_state"
    by (simp add: eval_defs example_defs raises_def)
  from run_subscribes_latest_reads[OF inv_branch_state l r] q
  have c: "consistent s'"
    and a: "\<And>t k. (t, k) \<in> own_reads 0 (new_events branch_state s') \<Longrightarrow>
       (\<exists>a. deps_addr s' t k = Some a \<and> has_entry s' a (Fn 0) \<and> a \<in> set (deps (effects s' ! 0)))"
    by blast+
  from r have cr: "own_reads 0 (new_events branch_state s') = {(Obj 0, ''a''), (Obj 0, ''cond'')}"
    by (auto simp: eval_defs example_defs)
  then have "(Obj 0, ''a'') \<in> own_reads 0 (new_events branch_state s')" by simp
  from a[OF this] c cr r q l inv_branch_state show ?thesis by blast
qed




section \<open>C9: nested units\<close>

lemma get_trap_unit:
  assumes "activeEffect s = Fn U"
  shows "get_trap ver t k s =
     Inr (data s t k, log (EvRead (Fn U) (reader s) (Obj t) k (data s t k)) (track (Obj t) k s))"
  using assms
  by (cases ver) (simp_all add: get_trap_def track_ver_def track_4_6_register track_register)



lemma wf_nested_state: "wf nested_state"
proof -
  have "wf (init data_4_8)" using inv_init by (simp add: inv_def)
  then have "wf (new_effect V48 (Seq (Effect (Get 0 ''bar'') False None) (Get 0 ''foo'')) False None
        (init data_4_8))" by (rule wf_new_effect)
  then show ?thesis unfolding nested_state_def by (rule wf_begin_run) simp
qed


end
